theory Spec2Isabelle
  imports Main "HOL-Library.AList"
begin

section \<open>Schema objects on a heap\<close>

text \<open>
  A Zod schema is a JavaScript object with an identity; a composite schema holds
  references to its children. The model keeps the schemas in a heap (a list of objects,
  \<open>Addr a\<close> refers to the object at index \<open>a\<close>), so that identity (\<open>===\<close>,
  \<open>toBe\<close>) is equality of references, a schema graph may be cyclic (an object shape
  defined through getters), and \<open>z.union\<close> allocates a new object each time it is
  called.

  The flattener also meets objects that are no schemas: the members of
  \<open>Object.prototype\<close>, which every object literal inherits. They exist before any
  schema is built and are never allocated by the program. \<open>Intrinsic name\<close> refers to
  what a property read of \<open>name\<close> finds on an empty object literal: the function
  \<open>Object.prototype.toString\<close> for \<open>toString\<close>, and \<open>Object.prototype\<close> itself
  for the accessor \<open>__proto__\<close>. \<open>Undefined\<close> is the value \<open>undefined\<close>.
\<close>

datatype ref = Addr nat | Intrinsic string | Undefined

text \<open>
  The classes the code tests with \<open>instanceof\<close> are the first seven constructors;
  every other schema (string, number, literal, date, lazy, record, ...) is a
  \<open>ZodLeaf\<close>, labelled by its kind.
  \<open>ZodObject\<close> carries \<open>Object.entries(shape)\<close>, \<open>ZodTuple\<close> carries
  \<open>def.items\<close>, \<open>ZodUnion\<close> carries \<open>options\<close>.
\<close>

datatype zod =
    ZodObject "(string \<times> ref) list"
  | ZodArray ref
  | ZodTuple "ref list"
  | ZodUnion "ref list"
  | ZodOptional ref
  | ZodDefault ref
  | ZodNullable ref
  | ZodLeaf string

type_synonym heap = "zod list"

text \<open>
  The schema object a reference denotes. The members of \<open>Object.prototype\<close> and
  \<open>undefined\<close> are instances of no Zod class; an address outside the heap stands for
  an object that is an instance of none of them either.
\<close>

definition deref :: "heap \<Rightarrow> ref \<Rightarrow> zod option" where
  "deref h r =
     (case r of
        Addr a \<Rightarrow> if a < length h then Some (h ! a) else None
      | Intrinsic name \<Rightarrow> None
      | Undefined \<Rightarrow> None)"

text \<open>\<open>z.union(options)\<close>: a new union object, distinct from every existing one.\<close>

definition z_union :: "heap \<Rightarrow> ref list \<Rightarrow> heap \<times> ref" where
  "z_union h options = (h @ [ZodUnion options], Addr (length h))"

section \<open>Records\<close>

text \<open>
  A \<open>Record<string, core.$ZodType>\<close> is a plain JavaScript object: its own properties,
  in the order in which \<open>Object.entries\<close> enumerates them, and its prototype.
  \<open>proto = None\<close> is the prototype of every object literal, \<open>Object.prototype\<close>;
  \<open>proto = Some u\<close> is a record whose prototype was replaced by the object \<open>u\<close>
  (an assignment to \<open>__proto__\<close> does that).
\<close>

type_synonym flat = "(string \<times> ref) list"

datatype jsrecord = JSRecord (own: flat) (proto: "ref option")

text \<open>The names of the members of \<open>Object.prototype\<close>.\<close>

definition object_prototype_keys :: "string list" where
  "object_prototype_keys =
     [''constructor'', ''__defineGetter__'', ''__defineSetter__'', ''hasOwnProperty'',
      ''__lookupGetter__'', ''__lookupSetter__'', ''isPrototypeOf'',
      ''propertyIsEnumerable'', ''toString'', ''valueOf'', ''__proto__'',
      ''toLocaleString'']"

text \<open>
  A key with a dot or an opening bracket. The paths of nested schemas have one; the
  names of the members of \<open>Object.prototype\<close> and of the objects Zod builds have
  none.
\<close>

definition punctuated :: "string \<Rightarrow> bool" where
  "punctuated key \<longleftrightarrow> CHR ''.'' \<in> set key \<or> CHR ''['' \<in> set key"

text \<open>
  The ways a call can end without returning a map. \<open>StackOverflow\<close> is the
  \<open>RangeError\<close> of a recursion deeper than the stack. \<open>ZodMember key\<close> is no error
  of the code: it marks the one point where the next step is decided by the Zod library
  and not by this repository. That point is a test \<open>key in acc\<close> on an accumulator
  whose prototype was replaced by a Zod union, for a key that is not an own property and
  has neither dot nor bracket: whether the union has a member of that name, the value
  read and the effect of the assignment that follows depend on the members Zod gives its
  objects. \<open>flatten\<close> never gets there (\<open>flattenSchema_decided\<close> below): only a
  field named \<open>__proto__\<close> replaces the prototype of an accumulator, and that
  accumulator then receives the paths below that field and nothing else.
\<close>

datatype failure = StackOverflow | ZodMember string

text \<open>
  \<open>key in acc ? acc[key] : undefined\<close>: an own property, else a member inherited
  through the prototype chain, else \<open>undefined\<close>. When the prototype was replaced, the
  chain is that of a Zod union, which has no member with a dot or a bracket in its name.
\<close>

definition current_value :: "jsrecord \<Rightarrow> string \<Rightarrow> failure + ref" where
  "current_value acc key =
     (case map_of (own acc) key of
        Some v \<Rightarrow> Inr v
      | None \<Rightarrow>
          (case proto acc of
             None \<Rightarrow> Inr (if key \<in> set object_prototype_keys then Intrinsic key else Undefined)
           | Some u \<Rightarrow> if punctuated key then Inr Undefined else Inl (ZodMember key)))"

text \<open>
  The order of the own properties of an ordinary object: first the keys that are array
  indices (the canonical decimal numerals of the integers below \<open>2^32 - 1\<close>) in
  ascending numeric order, then all other keys in the order in which they were created.
\<close>

definition digit :: "char \<Rightarrow> nat option" where
  "digit c =
     map_of [(CHR ''0'', 0), (CHR ''1'', 1), (CHR ''2'', 2), (CHR ''3'', 3), (CHR ''4'', 4),
             (CHR ''5'', 5), (CHR ''6'', 6), (CHR ''7'', 7), (CHR ''8'', 8), (CHR ''9'', 9)] c"

fun digits :: "string \<Rightarrow> nat list option" where
  "digits [] = Some []"
| "digits (c # cs) =
     (case digit c of
        None \<Rightarrow> None
      | Some d \<Rightarrow> (case digits cs of None \<Rightarrow> None | Some ds \<Rightarrow> Some (d # ds)))"

text \<open>
  The numeric order of two numerals without leading zeros, digit by digit: the shorter
  one is smaller, and of two of the same length the one with the smaller first differing
  digit.
\<close>

fun numeral_less :: "nat list \<Rightarrow> nat list \<Rightarrow> bool" where
  "numeral_less [] [] = False"
| "numeral_less [] (e # es) = True"
| "numeral_less (d # ds) [] = False"
| "numeral_less (d # ds) (e # es) =
     (length ds < length es \<or> (length ds = length es \<and> (d < e \<or> (d = e \<and> numeral_less ds es))))"

definition array_index :: "string \<Rightarrow> nat list option" where
  "array_index key =
     (case digits key of
        None \<Rightarrow> None
      | Some ds \<Rightarrow>
          if ds \<noteq> [] \<and> (hd ds = 0 \<longrightarrow> length ds = 1) \<and> numeral_less ds [4, 2, 9, 4, 9, 6, 7, 2, 9, 5]
          then Some ds else None)"

fun insert_index :: "nat list \<Rightarrow> string \<times> ref \<Rightarrow> flat \<Rightarrow> flat" where
  "insert_index i e [] = [e]"
| "insert_index i e (x # xs) =
     (case array_index (fst x) of
        None \<Rightarrow> e # x # xs
      | Some j \<Rightarrow> if numeral_less j i then x # insert_index i e xs else e # x # xs)"

text \<open>
  The own properties after \<open>acc[key] = v\<close> created or overwrote the own property
  \<open>key\<close>: the value of an existing key is replaced in place (\<open>AList.update\<close>), a
  new key takes its place in the order above.
\<close>

definition assign :: "flat \<Rightarrow> string \<Rightarrow> ref \<Rightarrow> flat" where
  "assign props key v =
     (case map_of props key of
        Some old \<Rightarrow> AList.update key v props
      | None \<Rightarrow>
          (case array_index key of
             None \<Rightarrow> props @ [(key, v)]
           | Some i \<Rightarrow> insert_index i (key, v) props))"

text \<open>
  The assignment \<open>acc[key] = v\<close>. For every key but \<open>__proto__\<close> it creates or
  overwrites an own property (the members of \<open>Object.prototype\<close> are writable data
  properties, which an assignment shadows). \<open>__proto__\<close> is an accessor: unless the
  record has an own property of that name, the assignment calls its setter, which makes
  an object \<open>v\<close> the prototype of the record, does nothing for \<open>undefined\<close>, and
  creates no property.
\<close>

definition store :: "jsrecord \<Rightarrow> string \<Rightarrow> ref \<Rightarrow> jsrecord" where
  "store acc key v =
     (if key = ''__proto__'' \<and> map_of (own acc) key = None
      then (if v = Undefined then acc else JSRecord (own acc) (Some v))
      else JSRecord (assign (own acc) key v) (proto acc))"

section \<open>mergeSchemas\<close>

text \<open>
  \<open>Array.prototype.reduce\<close> with a callback that may not return, and
  \<open>Array.prototype.map\<close> with a callback that may not return and may allocate.
\<close>

fun reduce :: "('s \<Rightarrow> 'a \<Rightarrow> failure + 's) \<Rightarrow> 's \<Rightarrow> 'a list \<Rightarrow> failure + 's" where
  "reduce f acc [] = Inr acc"
| "reduce f acc (x # xs) =
     (case f acc x of Inl e \<Rightarrow> Inl e | Inr acc' \<Rightarrow> reduce f acc' xs)"

fun map_heap :: "(heap \<Rightarrow> 'a \<Rightarrow> failure + heap \<times> 'b) \<Rightarrow> heap \<Rightarrow> 'a list \<Rightarrow> failure + heap \<times> 'b list" where
  "map_heap f h [] = Inr (h, [])"
| "map_heap f h (x # xs) =
     (case f h x of
        Inl e \<Rightarrow> Inl e
      | Inr (h1, y) \<Rightarrow>
          (case map_heap f h1 xs of
             Inl e \<Rightarrow> Inl e
           | Inr (h2, ys) \<Rightarrow> Inr (h2, y # ys)))"

text \<open>
  The inner callback of \<open>mergeSchemas\<close>:
  \<^verbatim>\<open>
  const current = key in acc ? acc[key] : undefined;
  acc[key] = current
    ? current instanceof ZodUnion
      ? z.union([...current.options, value])
      : z.union([current, value])
    : value;
  \<close>
  The accumulator starts as the literal \<open>{}\<close>, so for a key that names a member of
  \<open>Object.prototype\<close> the test \<open>key in acc\<close> is true before the key was ever
  stored: \<open>current\<close> is the inherited member, and the key gets a union of that member
  and the value.
\<close>

definition merge_entry :: "heap \<times> jsrecord \<Rightarrow> string \<times> ref \<Rightarrow> failure + heap \<times> jsrecord" where
  "merge_entry st e =
     (case st of (h, acc) \<Rightarrow> case e of (key, value) \<Rightarrow>
        (case current_value acc key of
           Inl f \<Rightarrow> Inl f
         | Inr current \<Rightarrow>
             if current = Undefined then Inr (h, store acc key value)
             else
               (case deref h current of
                  Some (ZodUnion options) \<Rightarrow>
                    (case z_union h (options @ [value]) of
                       (h', u) \<Rightarrow> Inr (h', store acc key u))
                | _ \<Rightarrow>
                    (case z_union h [current, value] of
                       (h', u) \<Rightarrow> Inr (h', store acc key u)))))"

text \<open>
  \<open>mergeSchemas(schemas)\<close>: every schema is read through \<open>Object.entries\<close>, that is
  through its own properties only.
\<close>

definition mergeSchemas :: "heap \<Rightarrow> jsrecord list \<Rightarrow> failure + heap \<times> jsrecord" where
  "mergeSchemas h schemas =
     reduce (\<lambda>st schema. reduce merge_entry st (own schema)) (h, JSRecord [] None) schemas"

section \<open>unwrapSchema and the flatteners\<close>

text \<open>
  The recursive functions \<open>unwrapSchema\<close> and \<open>flattenSchema\<close> take the depth of
  stack that is left as their first argument; at depth 0 the call overflows. A call that
  returns with some depth returns the same with any greater one (\<open>flattenSchema_more\<close>
  below), so the depth only separates the calls that return from those that recurse
  without end.
\<close>

fun unwrapSchema :: "nat \<Rightarrow> heap \<Rightarrow> ref \<Rightarrow> failure + ref" where
  "unwrapSchema 0 h schema = Inl StackOverflow"
| "unwrapSchema (Suc n) h schema =
     (case deref h schema of
        Some (ZodOptional inner) \<Rightarrow> unwrapSchema n h inner
      | Some (ZodDefault inner) \<Rightarrow> unwrapSchema n h inner
      | Some (ZodNullable inner) \<Rightarrow> unwrapSchema n h inner
      | _ \<Rightarrow> Inr schema)"

text \<open>
  The four kind-specific flatteners call \<open>flattenSchema\<close> back; here they take that
  recursive call as the parameter \<open>rec\<close>.
\<close>

type_synonym flattener = "heap \<Rightarrow> ref \<Rightarrow> string \<Rightarrow> failure + heap \<times> jsrecord"

text \<open>
  The entry a parent adds for a child, merged with the child's own entries: the
  expression \<open>mergeSchemas([{ [newKey]: value }, flattenSchema(value, newKey)])\<close>, which
  the flatteners of arrays, tuples and objects share. A computed key of an object
  literal always creates an own property.
\<close>

definition with_child :: "flattener \<Rightarrow> heap \<Rightarrow> string \<Rightarrow> ref \<Rightarrow> failure + heap \<times> jsrecord" where
  "with_child rec h newKey value =
     (case rec h value newKey of
        Inl e \<Rightarrow> Inl e
      | Inr (h1, sub) \<Rightarrow> mergeSchemas h1 [JSRecord [(newKey, value)] None, sub])"

definition flattenUnionSchema :: "flattener \<Rightarrow> flattener" where
  "flattenUnionSchema rec h schema prefix =
     (case deref h schema of
        Some (ZodUnion options) \<Rightarrow>
          (case map_heap (\<lambda>h' option. rec h' option prefix) h options of
             Inl e \<Rightarrow> Inl e
           | Inr (h1, flats) \<Rightarrow> mergeSchemas h1 flats)
      | _ \<Rightarrow> Inr (h, JSRecord [] None))"

definition object_key :: "string \<Rightarrow> string \<Rightarrow> string" where
  "object_key prefix key = (if prefix = [] then key else prefix @ ''.'' @ key)"

definition flattenObjectSchema :: "flattener \<Rightarrow> flattener" where
  "flattenObjectSchema rec h schema prefix =
     (case deref h schema of
        Some (ZodObject shape) \<Rightarrow>
          (case map_heap (\<lambda>h' (key, value). with_child rec h' (object_key prefix key) value)
                  h shape of
             Inl e \<Rightarrow> Inl e
           | Inr (h1, flats) \<Rightarrow> mergeSchemas h1 flats)
      | _ \<Rightarrow> Inr (h, JSRecord [] None))"

definition flattenArraySchema :: "flattener \<Rightarrow> flattener" where
  "flattenArraySchema rec h schema prefix =
     (case deref h schema of
        Some (ZodArray element) \<Rightarrow> with_child rec h (prefix @ ''[]'') element
      | _ \<Rightarrow> Inr (h, JSRecord [] None))"

text \<open>The decimal numeral of a template literal \<open>${index}\<close>.\<close>

fun decimal :: "nat \<Rightarrow> string" where
  "decimal n =
     (if n < 10 then [''0123456789'' ! n]
      else decimal (n div 10) @ [''0123456789'' ! (n mod 10)])"

declare decimal.simps [simp del]

definition tuple_key :: "string \<Rightarrow> nat \<Rightarrow> string" where
  "tuple_key prefix index = prefix @ ''['' @ decimal index @ '']''"

definition flattenTupleSchema :: "flattener \<Rightarrow> flattener" where
  "flattenTupleSchema rec h schema prefix =
     (case deref h schema of
        Some (ZodTuple elements) \<Rightarrow>
          (case map_heap (\<lambda>h' (index, element). with_child rec h' (tuple_key prefix index) element)
                  h (enumerate 0 elements) of
             Inl e \<Rightarrow> Inl e
           | Inr (h1, flats) \<Rightarrow> mergeSchemas h1 flats)
      | _ \<Rightarrow> Inr (h, JSRecord [] None))"

primrec flattenSchema :: "nat \<Rightarrow> flattener" where
  "flattenSchema 0 = (\<lambda>h schema prefix. Inl StackOverflow)"
| "flattenSchema (Suc n) = (\<lambda>h schema prefix.
     (case unwrapSchema n h schema of
        Inl e \<Rightarrow> Inl e
      | Inr unwraped \<Rightarrow>
     (case flattenArraySchema (flattenSchema n) h unwraped prefix of
        Inl e \<Rightarrow> Inl e
      | Inr (h1, a) \<Rightarrow>
     (case flattenTupleSchema (flattenSchema n) h1 unwraped prefix of
        Inl e \<Rightarrow> Inl e
      | Inr (h2, t) \<Rightarrow>
     (case flattenObjectSchema (flattenSchema n) h2 unwraped prefix of
        Inl e \<Rightarrow> Inl e
      | Inr (h3, ob) \<Rightarrow>
     (case flattenUnionSchema (flattenSchema n) h3 unwraped prefix of
        Inl e \<Rightarrow> Inl e
      | Inr (h4, u) \<Rightarrow> mergeSchemas h4 [a, t, ob, u]))))))"

definition flatten :: "nat \<Rightarrow> heap \<Rightarrow> ref \<Rightarrow> failure + heap \<times> jsrecord" where
  "flatten n h schema = flattenSchema n h schema []"

section \<open>resolve\<close>

text \<open>
  \<open>flat[key]\<close> is a plain property read: the stored schema for an own key of the map,
  else what the prototype chain gives, which for a map with the prototype of an object
  literal is the inherited member when the key names a member of \<open>Object.prototype\<close>
  and \<open>undefined\<close> otherwise. The read raises nothing. (On a record whose prototype
  is a Zod object the read of a key without dot and bracket could give a member of that
  object, which Zod decides; \<open>flatten\<close> returns no such record, see
  \<open>flattenSchema_record\<close> below.)
\<close>

definition property :: "jsrecord \<Rightarrow> string \<Rightarrow> failure + ref" where
  "property fl key =
     (case map_of (own fl) key of
        Some r \<Rightarrow> Inr r
      | None \<Rightarrow>
          (case proto fl of
             None \<Rightarrow> Inr (if key \<in> set object_prototype_keys then Intrinsic key else Undefined)
           | Some u \<Rightarrow> if punctuated key then Inr Undefined else Inl (ZodMember key)))"

definition resolve :: "nat \<Rightarrow> heap \<Rightarrow> ref \<Rightarrow> string \<Rightarrow> failure + heap \<times> ref" where
  "resolve n h schema key =
     (case flatten n h schema of
        Inl e \<Rightarrow> Inl e
      | Inr (h', fl) \<Rightarrow>
          (case property fl key of Inl e \<Rightarrow> Inl e | Inr v \<Rightarrow> Inr (h', v)))"

section \<open>Notions used in the statements\<close>

text \<open>The heap h' is the heap h with more objects allocated.\<close>

definition extends :: "heap \<Rightarrow> heap \<Rightarrow> bool" where
  "extends h h' \<longleftrightarrow> (\<exists>us. h' = h @ us)"

text \<open>A reference to an object of the heap.\<close>

definition allocated :: "heap \<Rightarrow> ref \<Rightarrow> bool" where
  "allocated h r = (case r of Addr a \<Rightarrow> a < length h | Intrinsic name \<Rightarrow> False | Undefined \<Rightarrow> False)"

definition own_keys :: "jsrecord \<Rightarrow> string set" where
  "own_keys m = fst ` set (own m)"

text \<open>
  The order of \<open>Object.entries\<close>: the array indices in ascending order, then the other
  keys.
\<close>

definition precedes :: "string \<Rightarrow> string \<Rightarrow> bool" where
  "precedes k k' =
     (case array_index k of
        None \<Rightarrow> array_index k' = None
      | Some i \<Rightarrow> (case array_index k' of None \<Rightarrow> True | Some j \<Rightarrow> numeral_less i j))"

definition js_ordered :: "flat \<Rightarrow> bool" where
  "js_ordered props = sorted_wrt (\<lambda>x y. precedes (fst x) (fst y)) props"

text \<open>
  What every accumulator of \<open>mergeSchemas\<close> is: its keys are distinct and in the order
  of \<open>Object.entries\<close>, and \<open>__proto__\<close> is not an own property.
\<close>

definition tidy :: "flat \<Rightarrow> bool" where
  "tidy props \<longleftrightarrow> distinct (map fst props) \<and> js_ordered props \<and> ''__proto__'' \<notin> fst ` set props"

text \<open>The entries that stay before a new array index i.\<close>

definition before_index :: "nat list \<Rightarrow> string \<times> ref \<Rightarrow> bool" where
  "before_index i x = (case array_index (fst x) of None \<Rightarrow> False | Some j \<Rightarrow> numeral_less j i)"

text \<open>
  The options a value contributes when it is the accumulated value of a key:
  \<open>current instanceof ZodUnion ? [...current.options] : [current]\<close>.
\<close>

definition splice :: "heap \<Rightarrow> ref \<Rightarrow> ref list" where
  "splice h v = (case deref h v of Some (ZodUnion options) \<Rightarrow> options | _ \<Rightarrow> [v])"

text \<open>The heap h' is the heap h with more unions allocated, and nothing else.\<close>

definition unions_only :: "zod list \<Rightarrow> bool" where
  "unions_only us \<longleftrightarrow> (\<forall>z \<in> set us. \<exists>options. z = ZodUnion options)"

definition grows :: "heap \<Rightarrow> heap \<Rightarrow> bool" where
  "grows h h' \<longleftrightarrow> (\<exists>us. h' = h @ us \<and> unions_only us)"

text \<open>Writing entries into a record one after the other.\<close>

definition assign_all :: "flat \<Rightarrow> flat \<Rightarrow> flat" where
  "assign_all xs props = fold (\<lambda>e a. assign a (fst e) (snd e)) xs props"

text \<open>The values the entries es hold for the key k, in their order.\<close>

definition occurrences :: "flat \<Rightarrow> string \<Rightarrow> ref list" where
  "occurrences es k = map snd (filter (\<lambda>e. fst e = k) es)"

text \<open>
  What a merge that started on the heap h0 and ended on the heap h holds for a key whose
  values were vs, as the lookup x: nothing for no value, the value itself for one value,
  and for two or more a union allocated after h0, whose options are the first value
  spliced, then the other values as they are.
\<close>

definition folded :: "heap \<Rightarrow> ref list \<Rightarrow> heap \<Rightarrow> ref option \<Rightarrow> bool" where
  "folded h0 vs h x =
     (case vs of
        [] \<Rightarrow> x = None
      | [v] \<Rightarrow> x = Some v
      | v1 # v2 # rest \<Rightarrow>
          (\<exists>u. x = Some (Addr u) \<and> length h0 \<le> u \<and>
               deref h (Addr u) = Some (ZodUnion (splice h0 v1 @ v2 # rest))))"

text \<open>The accumulator acc on the heap h, after the entries es were folded in from h0.\<close>

definition merged :: "heap \<Rightarrow> flat \<Rightarrow> heap \<Rightarrow> jsrecord \<Rightarrow> bool" where
  "merged h0 es h acc \<longleftrightarrow>
     extends h0 h \<and> tidy (own acc) \<and> proto acc = None \<and> own_keys acc = fst ` set es \<and>
     (\<forall>k. folded h0 (occurrences es k) h (map_of (own acc) k))"

text \<open>
  The values the branches hold for a key, in branch order (a branch is a JavaScript
  object and holds a key at most once).
\<close>

definition branch_values :: "jsrecord list \<Rightarrow> string \<Rightarrow> ref list" where
  "branch_values ms k =
     concat (map (\<lambda>m. case map_of (own m) k of None \<Rightarrow> [] | Some v \<Rightarrow> [v]) ms)"

text \<open>Whatever the flattener rec returns, rec' returns as well.\<close>

definition refines :: "flattener \<Rightarrow> flattener \<Rightarrow> bool" where
  "refines rec rec' \<longleftrightarrow> (\<forall>h s p r. rec h s p = Inr r \<longrightarrow> rec' h s p = Inr r)"

text \<open>A flattener that leaves the heap as it was, but for the unions it allocates.\<close>

definition only_allocates :: "flattener \<Rightarrow> bool" where
  "only_allocates rec \<longleftrightarrow> (\<forall>h s p h' m. rec h s p = Inr (h', m) \<longrightarrow> grows h h')"

text \<open>
  The four kind-specific flatteners as one match on the kind of the unwrapped schema: at
  most one of them returns a map that is not empty.
\<close>

definition dispatch :: "flattener \<Rightarrow> flattener" where
  "dispatch rec h schema prefix =
     (case deref h schema of
        Some (ZodArray element) \<Rightarrow> with_child rec h (prefix @ ''[]'') element
      | Some (ZodTuple elements) \<Rightarrow>
          (case map_heap (\<lambda>h' (index, element). with_child rec h' (tuple_key prefix index) element)
                  h (enumerate 0 elements) of
             Inl e \<Rightarrow> Inl e
           | Inr (h1, flats) \<Rightarrow> mergeSchemas h1 flats)
      | Some (ZodObject shape) \<Rightarrow>
          (case map_heap (\<lambda>h' (key, value). with_child rec h' (object_key prefix key) value)
                  h shape of
             Inl e \<Rightarrow> Inl e
           | Inr (h1, flats) \<Rightarrow> mergeSchemas h1 flats)
      | Some (ZodUnion options) \<Rightarrow>
          (case map_heap (\<lambda>h' option. rec h' option prefix) h options of
             Inl e \<Rightarrow> Inl e
           | Inr (h1, flats) \<Rightarrow> mergeSchemas h1 flats)
      | _ \<Rightarrow> Inr (h, JSRecord [] None))"

text \<open>The schemas a schema refers to.\<close>

definition children :: "zod \<Rightarrow> ref list" where
  "children z =
     (case z of
        ZodObject shape \<Rightarrow> map snd shape
      | ZodArray element \<Rightarrow> [element]
      | ZodTuple elements \<Rightarrow> elements
      | ZodUnion options \<Rightarrow> options
      | ZodOptional inner \<Rightarrow> [inner]
      | ZodDefault inner \<Rightarrow> [inner]
      | ZodNullable inner \<Rightarrow> [inner]
      | ZodLeaf kind \<Rightarrow> [])"

text \<open>
  The heap is closed (children are schemas of the heap) and acyclic: the ranking
  decreases from every schema to its children.
\<close>

definition acyclic_by :: "heap \<Rightarrow> (ref \<Rightarrow> nat) \<Rightarrow> bool" where
  "acyclic_by h rank \<longleftrightarrow>
     (\<forall>(a, z) \<in> set (enumerate 0 h). \<forall>c \<in> set (children z).
        allocated h c \<and> rank c < rank (Addr a))"

text \<open>The schema c is a child of the schema s.\<close>

definition child :: "heap \<Rightarrow> ref \<Rightarrow> ref \<Rightarrow> bool" where
  "child h s c \<longleftrightarrow> (\<exists>z. deref h s = Some z \<and> c \<in> set (children z))"

text \<open>From the schema s a cycle of the schema graph can be reached.\<close>

definition cyclic_from :: "heap \<Rightarrow> ref \<Rightarrow> bool" where
  "cyclic_from h s \<longleftrightarrow> (\<exists>t. (child h)\<^sup>*\<^sup>* s t \<and> (child h)\<^sup>+\<^sup>+ t t)"

text \<open>A flattener whose maps are tidy.\<close>

definition returns_tidy :: "flattener \<Rightarrow> bool" where
  "returns_tidy rec \<longleftrightarrow> (\<forall>h s p h' m. rec h s p = Inr (h', m) \<longrightarrow> tidy (own m))"

text \<open>No depth of stack is enough for \<open>flatten\<close>.\<close>

definition overflows :: "heap \<Rightarrow> ref \<Rightarrow> bool" where
  "overflows h schema \<longleftrightarrow> (\<forall>n. flatten n h schema = Inl StackOverflow)"

text \<open>
  The key k continues the path q with a field access or a bracket: it is strictly below
  q in the tree of paths.
\<close>

definition below :: "string \<Rightarrow> string \<Rightarrow> bool" where
  "below q k \<longleftrightarrow>
     length q < length k \<and> take (length q) k = q \<and>
     (k ! length q = CHR ''.'' \<or> k ! length q = CHR ''['')"

text \<open>A field name that cannot be mistaken for a path: not empty, no dot, no bracket.\<close>

definition simple_name :: "string \<Rightarrow> bool" where
  "simple_name name \<longleftrightarrow> name \<noteq> [] \<and> CHR ''.'' \<notin> set name \<and> CHR ''['' \<notin> set name"

text \<open>
  The maps a flattener returns are tidy records with the prototype of a literal, and
  below a prefix that is not empty all keys are below it.
\<close>

definition well_keyed :: "flattener \<Rightarrow> bool" where
  "well_keyed rec \<longleftrightarrow>
     (\<forall>h s p h' m. rec h s p = Inr (h', m) \<longrightarrow>
        tidy (own m) \<and> proto m = None \<and> (p \<noteq> [] \<longrightarrow> (\<forall>k \<in> own_keys m. below p k)))"

text \<open>
  The field of the object at the prefix p under which the key k lies: what follows the
  prefix (and its dot), up to the next dot or bracket.
\<close>

definition field_of :: "string \<Rightarrow> string \<Rightarrow> string" where
  "field_of p k =
     takeWhile (\<lambda>c. c \<noteq> CHR ''.'' \<and> c \<noteq> CHR ''['') (drop (length (object_key p [])) k)"

text \<open>The value of a decimal digit: its place among the ten digits.\<close>

definition digit_value :: "char \<Rightarrow> nat" where
  "digit_value ch = length (takeWhile (\<lambda>c. c \<noteq> ch) ''0123456789'')"

text \<open>The number a string of digits denotes.\<close>

definition of_decimal :: "string \<Rightarrow> nat" where
  "of_decimal s = foldl (\<lambda>acc ch. 10 * acc + digit_value ch) 0 s"

text \<open>
  The index of the tuple at the prefix p under which the key k lies: what stands between
  the bracket that follows the prefix and the next closing bracket.
\<close>

definition index_of :: "string \<Rightarrow> string \<Rightarrow> string" where
  "index_of p k = takeWhile (\<lambda>c. c \<noteq> CHR '']'') (drop (Suc (length p)) k)"

subsection \<open>Wrappers and declared paths\<close>

text \<open>
  The schema w is an optional, default or nullable wrapper of the schema inner: the three
  classes that \<open>unwrapSchema\<close> tests, with \<open>schema.unwrap()\<close> the inner schema.
\<close>

definition wrapper_of :: "heap \<Rightarrow> ref \<Rightarrow> ref \<Rightarrow> bool" where
  "wrapper_of h w inner \<longleftrightarrow>
     deref h w = Some (ZodOptional inner) \<or> deref h w = Some (ZodDefault inner) \<or>
     deref h w = Some (ZodNullable inner)"

text \<open>
  The field names of an object at the prefix p that cannot meet another path: distinct,
  not empty, without dot or opening bracket, and at the empty prefix not the name of a
  member of \<open>Object.prototype\<close>.
\<close>

definition proper_names :: "string \<Rightarrow> (string \<times> ref) list \<Rightarrow> bool" where
  "proper_names p shape \<longleftrightarrow>
     distinct (map fst shape) \<and> list_all (\<lambda>field. simple_name (fst field)) shape \<and>
     (p = [] \<longrightarrow> list_all (\<lambda>field. fst field \<notin> set object_prototype_keys) shape)"

text \<open>
  A way down the declared structure of a schema: into the element of an array, an item of
  a tuple, a field of an object, or through a wrapper.
\<close>

datatype step = Element | Item nat | Field string | Unwrap

text \<open>
  Following a way from the schema s, whose own path is p: the schema it reaches, and the
  path of that schema. A wrapper has the path of what it wraps.
\<close>

fun follow :: "heap \<Rightarrow> ref \<Rightarrow> string \<Rightarrow> step list \<Rightarrow> (string \<times> ref) option" where
  "follow h s p [] = Some (p, s)"
| "follow h s p (Element # steps) =
     (case deref h s of
        Some (ZodArray element) \<Rightarrow> follow h element (p @ ''[]'') steps
      | _ \<Rightarrow> None)"
| "follow h s p (Item i # steps) =
     (case deref h s of
        Some (ZodTuple elements) \<Rightarrow>
          if i < length elements then follow h (elements ! i) (tuple_key p i) steps else None
      | _ \<Rightarrow> None)"
| "follow h s p (Field name # steps) =
     (case deref h s of
        Some (ZodObject shape) \<Rightarrow>
          if proper_names p shape
          then (case map_of shape name of
                  Some field \<Rightarrow> follow h field (object_key p name) steps
                | None \<Rightarrow> None)
          else None
      | _ \<Rightarrow> None)"
| "follow h s p (Unwrap # steps) =
     (case deref h s of
        Some (ZodOptional inner) \<Rightarrow> follow h inner p steps
      | Some (ZodDefault inner) \<Rightarrow> follow h inner p steps
      | Some (ZodNullable inner) \<Rightarrow> follow h inner p steps
      | _ \<Rightarrow> None)"

subsection \<open>Two runs of the flattener\<close>

text \<open>
  A run that starts with d more objects on the heap allocates each of its unions d
  addresses further. The addresses below L are those of the schema graph; relocation
  moves the others by d.
\<close>

definition relocate :: "nat \<Rightarrow> nat \<Rightarrow> ref \<Rightarrow> ref" where
  "relocate L d r =
     (case r of
        Addr a \<Rightarrow> if L \<le> a then Addr (a + d) else Addr a
      | Intrinsic name \<Rightarrow> Intrinsic name
      | Undefined \<Rightarrow> Undefined)"

fun relocate_zod :: "nat \<Rightarrow> nat \<Rightarrow> zod \<Rightarrow> zod" where
  "relocate_zod L d (ZodObject shape) = ZodObject (map (apsnd (relocate L d)) shape)"
| "relocate_zod L d (ZodArray element) = ZodArray (relocate L d element)"
| "relocate_zod L d (ZodTuple elements) = ZodTuple (map (relocate L d) elements)"
| "relocate_zod L d (ZodUnion options) = ZodUnion (map (relocate L d) options)"
| "relocate_zod L d (ZodOptional inner) = ZodOptional (relocate L d inner)"
| "relocate_zod L d (ZodDefault inner) = ZodDefault (relocate L d inner)"
| "relocate_zod L d (ZodNullable inner) = ZodNullable (relocate L d inner)"
| "relocate_zod L d (ZodLeaf kind) = ZodLeaf kind"

definition relocate_record :: "nat \<Rightarrow> nat \<Rightarrow> jsrecord \<Rightarrow> jsrecord" where
  "relocate_record L d m =
     JSRecord (map (apsnd (relocate L d)) (own m)) (map_option (relocate L d) (proto m))"

text \<open>The heap hB holds, relocated, what the heap hA holds.\<close>

definition relocated :: "nat \<Rightarrow> nat \<Rightarrow> heap \<Rightarrow> heap \<Rightarrow> bool" where
  "relocated L d hA hB \<longleftrightarrow>
     L \<le> length hA \<and> length hB = length hA + d \<and>
     (\<forall>r. deref hB (relocate L d r) = map_option (relocate_zod L d) (deref hA r))"

text \<open>A flattener that does on the relocated heap the relocated same.\<close>

definition equivariant :: "nat \<Rightarrow> nat \<Rightarrow> flattener \<Rightarrow> bool" where
  "equivariant L d rec \<longleftrightarrow>
     (\<forall>hA hB s p hA' m. relocated L d hA hB \<longrightarrow> rec hA s p = Inr (hA', m) \<longrightarrow>
        (\<exists>hB'. rec hB (relocate L d s) p = Inr (hB', relocate_record L d m) \<and>
               relocated L d hA' hB'))"

text \<open>The heap is closed: the children of its schemas are schemas of the heap.\<close>

definition closed :: "heap \<Rightarrow> bool" where
  "closed h \<longleftrightarrow> (\<forall>z \<in> set h. \<forall>c \<in> set (children z). allocated h c)"

text \<open>The values of the map are objects of the heap.\<close>

definition sound :: "heap \<Rightarrow> jsrecord \<Rightarrow> bool" where
  "sound h m \<longleftrightarrow> (\<forall>v \<in> snd ` set (own m). allocated h v)"

text \<open>
  A flattener whose maps hold objects of the heap, when it is called on schemas of the
  graph h0.
\<close>

definition sound_on :: "heap \<Rightarrow> flattener \<Rightarrow> bool" where
  "sound_on h0 rec \<longleftrightarrow>
     (\<forall>h s p h' m. grows h0 h \<longrightarrow> allocated h0 s \<longrightarrow> rec h s p = Inr (h', m) \<longrightarrow> sound h' m)"

section \<open>Concrete schemas\<close>

text \<open>
  \<open>z.object({name: z.string(), posts: z.array(z.object({title: z.string()}))})\<close>:
  address 0 is the string of \<open>name\<close>, 1 the string of \<open>title\<close>, 4 the root.
\<close>

definition blog_heap :: heap where
  "blog_heap =
     [ZodLeaf ''string'', ZodLeaf ''string'', ZodObject [(''title'', Addr 1)], ZodArray (Addr 2),
      ZodObject [(''name'', Addr 0), (''posts'', Addr 3)]]"

text \<open>
  \<open>z.union([z.object({type: z.literal("car"), doors: z.number()}),
  z.object({type: z.literal("bike"), gears: z.number()})])\<close>: address 6 is the root.
\<close>

definition vehicle_heap :: heap where
  "vehicle_heap =
     [ZodLeaf ''literal car'', ZodLeaf ''number'',
      ZodObject [(''type'', Addr 0), (''doors'', Addr 1)],
      ZodLeaf ''literal bike'', ZodLeaf ''number'',
      ZodObject [(''type'', Addr 3), (''gears'', Addr 4)],
      ZodUnion [Addr 2, Addr 5]]"

text \<open>
  Three leaves and \<open>z.union([z.number(), z.boolean()])\<close> at address 3.
\<close>

definition nested_heap :: heap where
  "nested_heap =
     [ZodLeaf ''string'', ZodLeaf ''number'', ZodLeaf ''boolean'', ZodUnion [Addr 1, Addr 2]]"

text \<open>
  \<open>const Node = z.object({ get self() { return Node } })\<close>: an object schema whose
  field is the schema itself.
\<close>

definition loop_heap :: heap where
  "loop_heap = [ZodObject [(''self'', Addr 0)]]"

text \<open>
  \<open>z.object({a: z.object({b: z.string()}), "a.b": z.number()})\<close>: address 3 is the
  root.
\<close>

definition dotted_heap :: heap where
  "dotted_heap =
     [ZodLeaf ''string'', ZodLeaf ''number'', ZodObject [(''b'', Addr 0)],
      ZodObject [(''a'', Addr 2), (''a.b'', Addr 1)]]"

text \<open>
  \<open>const inner = z.object({a: z.string()})\<close> (address 1),
  \<open>const w = inner.nullable().optional()\<close> (address 3), \<open>z.array(w)\<close>
  (address 4), \<open>z.object({list: z.array(w), opt: w})\<close> (address 5),
  \<open>z.tuple([z.string(), w])\<close> (address 6) and \<open>inner.default({a: ""})\<close>
  (address 7).
\<close>

definition wrapped_heap :: heap where
  "wrapped_heap =
     [ZodLeaf ''string'', ZodObject [(''a'', Addr 0)], ZodNullable (Addr 1), ZodOptional (Addr 2),
      ZodArray (Addr 3), ZodObject [(''list'', Addr 4), (''opt'', Addr 3)],
      ZodTuple [Addr 0, Addr 3], ZodDefault (Addr 1)]"

text \<open>
  \<open>z.object({"": z.object({"": z.string()}).optional()})\<close>: address 3 is the root,
  address 2 the optional wrapper of the inner object.
\<close>

definition empty_name_heap :: heap where
  "empty_name_heap =
     [ZodLeaf ''string'', ZodObject [('''', Addr 0)], ZodOptional (Addr 1),
      ZodObject [('''', Addr 2)]]"

text \<open>
  \<open>z.union([z.object({x: z.string()}),
  z.object({x: z.union([z.number(), z.boolean()])})])\<close>: address 6 is the root,
  address 3 the union that the second branch declares for \<open>x\<close>.
\<close>

definition later_union_heap :: heap where
  "later_union_heap =
     [ZodLeaf ''string'', ZodLeaf ''number'', ZodLeaf ''boolean'', ZodUnion [Addr 1, Addr 2],
      ZodObject [(''x'', Addr 0)], ZodObject [(''x'', Addr 3)], ZodUnion [Addr 4, Addr 5]]"

text \<open>
  \<open>z.object({toString: z.string()})\<close>: address 1 is the root, and the name of its
  field is the name of a member of \<open>Object.prototype\<close>.
\<close>

definition tostring_heap :: heap where
  "tostring_heap = [ZodLeaf ''string'', ZodObject [(''toString'', Addr 0)]]"

text \<open>
  \<open>z.object({b: z.string(), 1: z.number(), 0: z.object({x: z.string()})})\<close>:
  address 3 is the root. The shape of an object schema is itself a plain object, so
  \<open>Object.entries(shape)\<close> lists the fields \<open>0\<close> and \<open>1\<close> first.
\<close>

definition numbered_heap :: heap where
  "numbered_heap =
     [ZodLeaf ''string'', ZodLeaf ''number'', ZodObject [(''x'', Addr 0)],
      ZodObject [(''0'', Addr 2), (''1'', Addr 1), (''b'', Addr 0)]]"

text \<open>
  \<open>const w = z.string().optional()\<close> (address 1) and
  \<open>z.object({x: z.array(w), "x[]": z.number()})\<close> (address 4): the path of the
  element of the array \<open>x\<close> is also the path of the field \<open>x[]\<close>.
\<close>

definition sibling_heap :: heap where
  "sibling_heap =
     [ZodLeaf ''string'', ZodOptional (Addr 0), ZodArray (Addr 1), ZodLeaf ''number'',
      ZodObject [(''x'', Addr 2), (''x[]'', Addr 3)]]"

text \<open>
  \<open>z.object({["__proto__"]: z.object({a: z.string()}), b: z.string()})\<close>: address 2
  is the root, and its first field is named \<open>__proto__\<close>.
\<close>

definition proto_heap :: heap where
  "proto_heap =
     [ZodLeaf ''string'', ZodObject [(''a'', Addr 0)],
      ZodObject [(''__proto__'', Addr 1), (''b'', Addr 0)]]"

section \<open>Lemmas\<close>

subsection \<open>Folding entries into the accumulator\<close>

lemma reduce_append:
  "reduce f acc (xs @ ys) = (case reduce f acc xs of Inl e \<Rightarrow> Inl e | Inr acc' \<Rightarrow> reduce f acc' ys)"
  by (induction xs arbitrary: acc) (auto split: sum.splits)

lemma reduce_concat_map:
  "reduce (\<lambda>st x. reduce f st (g x)) acc xs = reduce f acc (concat (map g xs))"
  by (induction xs arbitrary: acc) (auto simp: reduce_append split: sum.splits)

lemma mergeSchemas_concat:
  "mergeSchemas h ms = reduce merge_entry (h, JSRecord [] None) (concat (map own ms))"
  by (simp add: mergeSchemas_def reduce_concat_map)

lemma numeral_less_length: "length a < length b \<Longrightarrow> numeral_less a b"
  by (cases a; cases b) auto

lemma numeral_less_le: "numeral_less a b \<Longrightarrow> length a \<le> length b"
  by (cases a; cases b) auto

lemma numeral_less_trans: "numeral_less a b \<Longrightarrow> numeral_less b c \<Longrightarrow> numeral_less a c"
proof (induction a arbitrary: b c)
  case Nil
  then show ?case by (cases b; cases c) auto
next
  case (Cons d ds)
  from Cons.prems obtain e es where b: "b = e # es" by (cases b) auto
  from Cons.prems b obtain f fs where c: "c = f # fs" by (cases c) auto
  from Cons.prems Cons.IH[of es fs] show ?case
    unfolding b c by auto
qed

lemma numeral_less_total: "a \<noteq> b \<Longrightarrow> numeral_less a b \<or> numeral_less b a"
proof (induction a arbitrary: b)
  case Nil
  then show ?case by (cases b) auto
next
  case (Cons d ds)
  show ?case
  proof (cases b)
    case Nil
    then show ?thesis by simp
  next
    case (Cons e es)
    with Cons.prems Cons.IH[of es] show ?thesis
      by (cases "length ds < length es"; cases "length es < length ds"; cases "d < e"; cases "e < d") auto
  qed
qed

lemma numeral_less_irrefl: "\<not> numeral_less a a"
  by (induction a) auto

lemma map_of_inj:
  "distinct (map snd al) \<Longrightarrow> map_of al c = Some d \<Longrightarrow> map_of al c' = Some d \<Longrightarrow> c = c'"
proof (induction al)
  case Nil
  then show ?case by simp
next
  case (Cons x al)
  obtain a b where x: "x = (a, b)" by (cases x)
  from Cons.prems(1) x have nb: "b \<notin> snd ` set al" by auto
  have no: "map_of al y \<noteq> Some b" for y
  proof
    assume "map_of al y = Some b"
    then have "(y, b) \<in> set al" by (rule map_of_SomeD)
    with nb show False by force
  qed
  show ?case
  proof (cases "c = a")
    case True
    with Cons.prems(2) x have "d = b" by simp
    with Cons.prems(3) x no[of c'] have "c' = a" by (cases "c' = a") auto
    with True show ?thesis by simp
  next
    case False
    with Cons.prems(2) x have c: "map_of al c = Some d" by simp
    with no[of c] have "d \<noteq> b" by auto
    with Cons.prems(3) x have "map_of al c' = Some d" by (cases "c' = a") auto
    with Cons.IH c Cons.prems(1) show ?thesis by simp
  qed
qed

lemma digit_inj:
  assumes "digit c = Some d" "digit c' = Some d"
  shows "c = c'"
proof (rule map_of_inj)
  show "map_of [(CHR ''0'', 0), (CHR ''1'', 1), (CHR ''2'', 2), (CHR ''3'', 3), (CHR ''4'', 4),
             (CHR ''5'', 5), (CHR ''6'', 6), (CHR ''7'', 7), (CHR ''8'', 8), (CHR ''9'', 9::nat)] c = Some d"
    using assms(1) by (simp only: digit_def)
  show "map_of [(CHR ''0'', 0), (CHR ''1'', 1), (CHR ''2'', 2), (CHR ''3'', 3), (CHR ''4'', 4),
             (CHR ''5'', 5), (CHR ''6'', 6), (CHR ''7'', 7), (CHR ''8'', 8), (CHR ''9'', 9::nat)] c' = Some d"
    using assms(2) by (simp only: digit_def)
qed simp

lemma digits_inj: "digits k = Some ds \<Longrightarrow> digits k' = Some ds \<Longrightarrow> k = k'"
proof (induction k arbitrary: k' ds)
  case Nil
  then show ?case by (cases k') (auto split: option.splits)
next
  case (Cons c cs)
  from Cons.prems(1) obtain d es where d: "digit c = Some d" "digits cs = Some es" "ds = d # es"
    by (auto split: option.splits)
  with Cons.prems(2) obtain c' cs' where k': "k' = c' # cs'" by (cases k') auto
  with Cons.prems(2) d have "digit c' = Some d" "digits cs' = Some es"
    by (auto split: option.splits)
  with d Cons.IH[of es cs'] digit_inj[of c d c'] k' show ?case by simp
qed

lemma array_index_inj: "array_index k = Some i \<Longrightarrow> array_index k' = Some i \<Longrightarrow> k = k'"
  by (auto simp: array_index_def split: option.splits if_splits dest: digits_inj)

subsection \<open>The order of the own properties\<close>

lemma insert_index_split:
  "insert_index i e xs = takeWhile (before_index i) xs @ e # dropWhile (before_index i) xs"
  by (induction xs) (auto simp: before_index_def split: option.splits)

lemma set_insert_index [simp]: "set (insert_index i e xs) = insert e (set xs)"
  by (induction xs) (auto split: option.splits)

lemma distinct_insert_index:
  "distinct (map fst xs) \<Longrightarrow> fst e \<notin> fst ` set xs \<Longrightarrow> distinct (map fst (insert_index i e xs))"
proof -
  assume d: "distinct (map fst xs)" and n: "fst e \<notin> fst ` set xs"
  have "xs = takeWhile (before_index i) xs @ dropWhile (before_index i) xs" by simp
  with d have "distinct (map fst (takeWhile (before_index i) xs @ dropWhile (before_index i) xs))"
    by simp
  moreover have "set (takeWhile (before_index i) xs) \<subseteq> set xs" "set (dropWhile (before_index i) xs) \<subseteq> set xs"
    by (auto dest: set_takeWhileD set_dropWhileD)
  ultimately show ?thesis
    unfolding insert_index_split using n by (auto simp del: takeWhile_dropWhile_id)
qed

lemma map_of_insert_index:
  "fst e \<notin> fst ` set xs \<Longrightarrow> map_of (insert_index i e xs) = (map_of xs)(fst e \<mapsto> snd e)"
proof (induction xs)
  case Nil
  then show ?case by (cases e) auto
next
  case (Cons x xs)
  then show ?case
    by (cases e; cases x) (auto split: option.splits simp: fun_upd_twist)
qed

lemma map_of_assign [simp]: "map_of (assign props k v) = (map_of props)(k \<mapsto> v)"
proof (cases "map_of props k")
  case None
  then have "k \<notin> fst ` set props" by (simp add: map_of_eq_None_iff)
  then have "fst (k, v) \<notin> fst ` set props" by simp
  from map_of_insert_index[OF this] have ins: "map_of (insert_index i (k, v) props) = (map_of props)(k \<mapsto> v)" for i
    by simp
  have "map_of (props @ [(k, v)]) = (map_of props)(k \<mapsto> v)"
    using None by (auto simp: map_add_def split: option.splits)
  with ins None show ?thesis
    by (simp add: assign_def split: option.splits)
next
  case (Some old)
  then show ?thesis by (simp add: assign_def update_conv')
qed

lemma keys_assign [simp]: "fst ` set (assign props k v) = insert k (fst ` set props)"
proof -
  have "dom (map_of (assign props k v)) = insert k (dom (map_of props))" by simp
  then show ?thesis by (simp only: dom_map_of_conv_image_fst)
qed

lemma assign_absent:
  assumes "k \<notin> fst ` set props"
  shows "assign props k v =
           (case array_index k of None \<Rightarrow> props @ [(k, v)] | Some i \<Rightarrow> insert_index i (k, v) props)"
  using assms by (simp add: assign_def map_of_eq_None_iff[symmetric])

lemma assign_present: "map_of props k = Some old \<Longrightarrow> assign props k v = AList.update k v props"
  by (simp add: assign_def)

lemma distinct_assign: "distinct (map fst props) \<Longrightarrow> distinct (map fst (assign props k v))"
proof (cases "map_of props k")
  case None
  assume d: "distinct (map fst props)"
  from None have n: "k \<notin> fst ` set props" by (simp add: map_of_eq_None_iff)
  then have "fst (k, v) \<notin> fst ` set props" by simp
  from distinct_insert_index[OF d this] d n show ?thesis
    by (simp add: assign_absent split: option.splits)
next
  case (Some old)
  assume "distinct (map fst props)"
  with Some show ?thesis by (simp add: assign_present distinct_update)
qed

lemma set_assign_absent: "k \<notin> fst ` set props \<Longrightarrow> set (assign props k v) = insert (k, v) (set props)"
  by (auto simp: assign_absent split: option.splits)

lemma assign_plain:
  "k \<notin> fst ` set props \<Longrightarrow> array_index k = None \<Longrightarrow> assign props k v = props @ [(k, v)]"
  by (simp add: assign_absent)

text \<open>The order of entries.\<close>

lemma precedes_trans:
  "precedes a b \<Longrightarrow> precedes b c \<Longrightarrow> precedes a c"
  by (auto simp: precedes_def split: option.splits intro: numeral_less_trans)

lemma update_absent: "k \<notin> fst ` set al \<Longrightarrow> AList.update k v al = al @ [(k, v)]"
  by (induction al) auto

lemma js_ordered_keys: "js_ordered props \<longleftrightarrow> sorted_wrt precedes (map fst props)"
  by (simp add: js_ordered_def sorted_wrt_map)

lemma js_ordered_insert_index:
  assumes o: "js_ordered xs" and i: "array_index k = Some i" and n: "k \<notin> fst ` set xs"
  shows "js_ordered (insert_index i (k, v) xs)"
  using o n
proof (induction xs)
  case Nil
  then show ?case by (simp add: js_ordered_def)
next
  case (Cons x xs)
  from Cons.prems(1) have tail: "js_ordered xs" and hd: "\<forall>y \<in> set xs. precedes (fst x) (fst y)"
    by (simp_all add: js_ordered_def)
  show ?case
  proof (cases "array_index (fst x)")
    case None
    with hd have "\<forall>y \<in> set xs. precedes k (fst y)"
      using i by (auto simp: precedes_def split: option.splits)
    moreover have "precedes k (fst x)" using i None by (simp add: precedes_def)
    ultimately show ?thesis using None Cons.prems(1) by (simp add: js_ordered_def)
  next
    case (Some j)
    show ?thesis
    proof (cases "numeral_less j i")
      case True
      then have px: "precedes (fst x) k" using i Some by (simp add: precedes_def)
      from Cons.IH[OF tail] Cons.prems(2) have "js_ordered (insert_index i (k, v) xs)" by simp
      with hd px Some True show ?thesis by (auto simp: js_ordered_def)
    next
      case False
      from Cons.prems(2) have "fst x \<noteq> k" by auto
      with array_index_inj[OF Some, of k] i have "j \<noteq> i" by auto
      with numeral_less_total[of i j] False have "numeral_less i j" by auto
      then have kx: "precedes k (fst x)" using i Some by (simp add: precedes_def)
      with hd have "\<forall>y \<in> set xs. precedes k (fst y)" by (auto intro: precedes_trans)
      with kx Some False Cons.prems(1) show ?thesis by (simp add: js_ordered_def)
    qed
  qed
qed

lemma js_ordered_assign: "js_ordered props \<Longrightarrow> js_ordered (assign props k v)"
proof (cases "map_of props k")
  case None
  assume o: "js_ordered props"
  from None have n: "k \<notin> fst ` set props" by (simp add: map_of_eq_None_iff)
  show ?thesis
  proof (cases "array_index k")
    case None
    then have "\<forall>x \<in> set props. precedes (fst x) k"
      by (auto simp: precedes_def split: option.splits)
    with o None n show ?thesis
      by (simp add: assign_absent js_ordered_def sorted_wrt_append)
  next
    case (Some i)
    with js_ordered_insert_index[OF o Some n] n show ?thesis by (simp add: assign_absent)
  qed
next
  case (Some old)
  assume o: "js_ordered props"
  from Some have "k \<in> fst ` set props"
    using map_of_eq_None_iff[of props k] by auto
  then have "map fst (AList.update k v props) = map fst props" by (simp add: update_keys)
  with o Some show ?thesis by (simp add: assign_present js_ordered_keys)
qed

text \<open>Writing the entries of an ordered record into a record, in their order.\<close>

lemma assign_last:
  assumes "js_ordered (props @ [(k, v)])" "k \<notin> fst ` set props"
  shows "assign props k v = props @ [(k, v)]"
proof (cases "array_index k")
  case None
  with assms(2) show ?thesis by (simp add: assign_plain)
next
  case (Some i)
  from assms(1) have "\<forall>x \<in> set props. precedes (fst x) k"
    by (simp add: js_ordered_def sorted_wrt_append)
  with Some have "\<forall>x \<in> set props. before_index i x"
    by (auto simp: precedes_def before_index_def split: option.splits)
  then have "takeWhile (before_index i) props = props" "dropWhile (before_index i) props = []"
    by simp_all
  with Some assms(2) show ?thesis by (simp add: assign_absent insert_index_split)
qed

subsection \<open>Reading the heap after allocations\<close>

lemma extends_append [simp]: "extends h (h @ us)"
  by (auto simp: extends_def)

lemma extends_refl [simp]: "extends h h"
  by (auto simp: extends_def)

lemma extends_trans: "extends h h1 \<Longrightarrow> extends h1 h2 \<Longrightarrow> extends h h2"
  by (auto simp: extends_def)

lemma extends_length: "extends h h' \<Longrightarrow> length h \<le> length h'"
  by (auto simp: extends_def)

lemma deref_Some_Addr: "deref h r = Some z \<Longrightarrow> \<exists>a. r = Addr a \<and> a < length h"
  by (auto simp: deref_def split: ref.splits if_splits)

lemma deref_allocated: "deref h r = Some z \<Longrightarrow> allocated h r"
  by (auto simp: deref_def allocated_def split: ref.splits if_splits)

lemma allocated_deref: "allocated h r \<Longrightarrow> \<exists>z. deref h r = Some z"
  by (auto simp: deref_def allocated_def split: ref.splits)

lemma deref_extends: "extends h h' \<Longrightarrow> deref h r = Some z \<Longrightarrow> deref h' r = Some z"
  by (auto simp: extends_def deref_def nth_append split: ref.splits if_splits)

lemma deref_extends_allocated: "extends h h' \<Longrightarrow> allocated h r \<Longrightarrow> deref h' r = deref h r"
  by (auto simp: extends_def deref_def allocated_def nth_append split: ref.splits)

lemma allocated_extends: "extends h h' \<Longrightarrow> allocated h r \<Longrightarrow> allocated h' r"
  by (auto simp: extends_def allocated_def split: ref.splits)

lemma deref_fresh: "deref (h @ [z]) (Addr (length h)) = Some z"
  by (simp add: deref_def)

lemma deref_not_allocated: "\<not> allocated h r \<Longrightarrow> deref h r = None"
  by (auto simp: deref_def allocated_def split: ref.splits)

lemma grows_refl: "grows h h"
  by (auto simp: grows_def unions_only_def)

lemma grows_trans: "grows h h1 \<Longrightarrow> grows h1 h2 \<Longrightarrow> grows h h2"
  by (auto simp: grows_def unions_only_def)

lemma grows_extends: "grows h h' \<Longrightarrow> extends h h'"
  by (auto simp: grows_def)

lemma grows_snoc: "grows h (h @ [ZodUnion os])"
  by (auto simp: grows_def unions_only_def)

lemma grows_length: "grows h h' \<Longrightarrow> length h \<le> length h'"
  by (auto simp: grows_def)

lemma deref_grows: "grows h h' \<Longrightarrow> deref h r = Some z \<Longrightarrow> deref h' r = Some z"
  by (rule deref_extends[OF grows_extends])

subsection \<open>One step of the merge\<close>

lemma proto_not_inherited_key: "key \<notin> set object_prototype_keys \<Longrightarrow> key \<noteq> ''__proto__''"
  by (auto simp: object_prototype_keys_def)

lemma merge_entry_fresh:
  assumes "map_of (own acc) key = None" "proto acc = None" "key \<notin> set object_prototype_keys"
  shows "merge_entry (h, acc) (key, value) = Inr (h, JSRecord (assign (own acc) key value) None)"
  using assms proto_not_inherited_key[OF assms(3)]
  by (simp add: merge_entry_def current_value_def store_def)

lemma merge_entry_present:
  assumes "map_of (own acc) key = Some current" "current \<noteq> Undefined"
  shows "merge_entry (h, acc) (key, value) =
           Inr (h @ [ZodUnion (splice h current @ [value])],
                JSRecord (AList.update key (Addr (length h)) (own acc)) (proto acc))"
  using assms
  by (auto simp: merge_entry_def current_value_def store_def splice_def z_union_def assign_present
           split: option.splits zod.splits)

lemma merge_entry_undefined:
  assumes "map_of (own acc) key = Some Undefined"
  shows "merge_entry (h, acc) (key, value) =
           Inr (h, JSRecord (AList.update key value (own acc)) (proto acc))"
  using assms by (simp add: merge_entry_def current_value_def store_def assign_present)

lemma merge_entry_inherited:
  assumes "map_of (own acc) key = None" "proto acc = None" "key \<in> set object_prototype_keys"
    "key \<noteq> ''__proto__''"
  shows "merge_entry (h, acc) (key, value) =
           Inr (h @ [ZodUnion [Intrinsic key, value]],
                JSRecord (assign (own acc) key (Addr (length h))) None)"
  using assms
  by (simp add: merge_entry_def current_value_def store_def deref_def z_union_def)

lemma merge_entry_proto:
  assumes "map_of (own acc) ''__proto__'' = None" "proto acc = None"
  shows "merge_entry (h, acc) (''__proto__'', value) =
           Inr (h @ [ZodUnion [Intrinsic ''__proto__'', value]],
                JSRecord (own acc) (Some (Addr (length h))))"
  using assms
  by (simp add: merge_entry_def current_value_def store_def deref_def z_union_def
      object_prototype_keys_def)

lemma proto_not_punctuated [simp]: "\<not> punctuated ''__proto__''"
  by (simp add: punctuated_def)

lemma punctuated_not_proto: "punctuated key \<Longrightarrow> key \<noteq> ''__proto__''"
  by auto

lemma merge_entry_decided_by_zod:
  assumes "map_of (own acc) key = None" "proto acc = Some u" "\<not> punctuated key"
  shows "merge_entry (h, acc) (key, value) = Inl (ZodMember key)"
  using assms by (simp add: merge_entry_def current_value_def)

lemma merge_entry_detached:
  assumes "map_of (own acc) key = None" "proto acc = Some u" "punctuated key"
  shows "merge_entry (h, acc) (key, value) = Inr (h, JSRecord (assign (own acc) key value) (Some u))"
  using assms punctuated_not_proto[OF assms(3)]
  by (simp add: merge_entry_def current_value_def store_def)

lemma merge_entry_Inl_iff:
  "merge_entry (h, acc) (k, v) = Inl e \<longleftrightarrow>
     map_of (own acc) k = None \<and> proto acc \<noteq> None \<and> \<not> punctuated k \<and> e = ZodMember k"
  by (auto simp: merge_entry_def current_value_def z_union_def
           split: option.splits zod.splits)

text \<open>The cases of one step, for an accumulator that is tidy.\<close>

lemma merge_entry_cases:
  assumes "merge_entry (h, acc) (k, v) = Inr (h', acc')"
  obtains (proto) "k = ''__proto__''" "map_of (own acc) k = None" "proto acc = None"
      "h' = h @ [ZodUnion [Intrinsic ''__proto__'', v]]" "own acc' = own acc"
      "proto acc' = Some (Addr (length h))"
    | (keep) "h' = h" "own acc' = assign (own acc) k v" "proto acc' = proto acc"
    | (union) options where "h' = h @ [ZodUnion options]"
        "own acc' = assign (own acc) k (Addr (length h))" "proto acc' = proto acc"
proof (cases "map_of (own acc) k")
  case None
  show ?thesis
  proof (cases "proto acc")
    case (Some u)
    have "punctuated k"
    proof (rule ccontr)
      assume "\<not> punctuated k"
      from merge_entry_decided_by_zod[OF None Some this, of h v] assms show False by simp
    qed
    from merge_entry_detached[OF None Some this, of h v] assms Some keep show ?thesis by auto
  next
    case p: None
    show ?thesis
    proof (cases "k \<in> set object_prototype_keys")
      case False
      with None p assms keep show ?thesis by (auto simp: merge_entry_fresh)
    next
      case True
      show ?thesis
      proof (cases "k = ''__proto__''")
        case True
        with None p assms proto show ?thesis by (auto simp: merge_entry_proto)
      next
        case False
        with True None p assms union[of "[Intrinsic k, v]"] show ?thesis
          by (auto simp: merge_entry_inherited)
      qed
    qed
  qed
next
  case (Some current)
  show ?thesis
  proof (cases "current = Undefined")
    case True
    with Some assms keep show ?thesis by (auto simp: merge_entry_undefined assign_present)
  next
    case False
    with Some assms union[of "splice h current @ [v]"] show ?thesis
      by (auto simp: merge_entry_present assign_present)
  qed
qed

lemma tidy_assign: "tidy props \<Longrightarrow> k \<noteq> ''__proto__'' \<Longrightarrow> tidy (assign props k v)"
  by (auto simp: tidy_def distinct_assign js_ordered_assign)

lemma merge_entry_basic:
  assumes step: "merge_entry (h, acc) (k, v) = Inr (h', acc')" and t: "tidy (own acc)"
  shows "grows h h'" "tidy (own acc')"
    "own_keys acc' = (if k = ''__proto__'' then own_keys acc else insert k (own_keys acc))"
    "k \<noteq> ''__proto__'' \<Longrightarrow> proto acc' = proto acc"
proof -
  from t have np: "map_of (own acc) ''__proto__'' = None"
    by (simp add: tidy_def map_of_eq_None_iff)
  have "grows h h' \<and> tidy (own acc') \<and>
    own_keys acc' = (if k = ''__proto__'' then own_keys acc else insert k (own_keys acc)) \<and>
    (k \<noteq> ''__proto__'' \<longrightarrow> proto acc' = proto acc)"
    using step
  proof (cases rule: merge_entry_cases)
    case proto
    with t show ?thesis by (simp add: grows_snoc own_keys_def)
  next
    case keep
    have "k \<noteq> ''__proto__''"
    proof
      assume k: "k = ''__proto__''"
      with np step have "proto acc' \<noteq> proto acc \<or> proto acc \<noteq> None"
        by (cases "proto acc") (auto simp: merge_entry_proto merge_entry_decided_by_zod)
      moreover from k np step have "h' \<noteq> h"
        by (cases "proto acc") (auto simp: merge_entry_proto merge_entry_decided_by_zod)
      ultimately show False using keep by simp
    qed
    with keep t show ?thesis by (simp add: grows_refl tidy_assign own_keys_def)
  next
    case (union options)
    have "k \<noteq> ''__proto__''"
    proof
      assume k: "k = ''__proto__''"
      with np step have "own acc' = own acc" "proto acc' = Some (Addr (length h))" "proto acc = None"
        by (cases "proto acc"; auto simp: merge_entry_proto merge_entry_decided_by_zod)+
      with union show False by simp
    qed
    with union t show ?thesis by (simp add: grows_snoc tidy_assign own_keys_def)
  qed
  then show "grows h h'" "tidy (own acc')"
    "own_keys acc' = (if k = ''__proto__'' then own_keys acc else insert k (own_keys acc))"
    "k \<noteq> ''__proto__'' \<Longrightarrow> proto acc' = proto acc"
    by simp_all
qed

lemma reduce_merge_basic:
  assumes "reduce merge_entry (h, acc) xs = Inr (h', acc')" "tidy (own acc)"
  shows "grows h h' \<and> tidy (own acc') \<and>
         own_keys acc' = own_keys acc \<union> (fst ` set xs - {''__proto__''}) \<and>
         (''__proto__'' \<notin> fst ` set xs \<longrightarrow> proto acc' = proto acc)"
  using assms
proof (induction xs arbitrary: h acc)
  case Nil
  then show ?case by (simp add: grows_refl)
next
  case (Cons x xs)
  obtain k v where x: "x = (k, v)" by (cases x)
  from Cons.prems obtain h1 acc1 where
    step: "merge_entry (h, acc) (k, v) = Inr (h1, acc1)"
    and rest: "reduce merge_entry (h1, acc1) xs = Inr (h', acc')"
    by (auto simp: x split: sum.splits)
  note b = merge_entry_basic[OF step Cons.prems(2)]
  from Cons.IH[OF rest b(2)] b(1,3,4) show ?case
    by (auto simp: x intro: grows_trans)
qed

lemma tidy_Nil [simp]: "tidy []"
  by (simp add: tidy_def js_ordered_def)

lemma mergeSchemas_basic:
  assumes "mergeSchemas h ms = Inr (h', m)"
  shows "grows h h'" "tidy (own m)" "own_keys m = (\<Union>x \<in> set ms. own_keys x) - {''__proto__''}"
    "\<forall>x \<in> set ms. ''__proto__'' \<notin> own_keys x \<Longrightarrow> proto m = None"
  using reduce_merge_basic[of h "JSRecord [] None" "concat (map own ms)" h' m] assms
  by (auto simp: mergeSchemas_concat own_keys_def)

lemma reduce_merge_not_overflow: "reduce merge_entry st xs \<noteq> Inl StackOverflow"
proof (induction xs arbitrary: st)
  case Nil
  then show ?case by simp
next
  case (Cons x xs)
  obtain h acc k v where "st = (h, acc)" "x = (k, v)" by (cases st, cases x) auto
  with Cons show ?case
    by (auto simp: merge_entry_Inl_iff split: sum.splits)
qed

lemma mergeSchemas_not_overflow: "mergeSchemas h ms \<noteq> Inl StackOverflow"
  by (simp add: mergeSchemas_concat reduce_merge_not_overflow)

text \<open>Without the key \<open>__proto__\<close> every merge returns.\<close>

lemma reduce_merge_returns:
  assumes "''__proto__'' \<notin> fst ` set xs" "proto acc = None" "tidy (own acc)"
  shows "\<exists>h' acc'. reduce merge_entry (h, acc) xs = Inr (h', acc')"
  using assms
proof (induction xs arbitrary: h acc)
  case Nil
  then show ?case by simp
next
  case (Cons x xs)
  obtain k v where x: "x = (k, v)" by (cases x)
  from Cons.prems(2) obtain h1 acc1 where step: "merge_entry (h, acc) (k, v) = Inr (h1, acc1)"
    by (cases "merge_entry (h, acc) (k, v)") (auto simp: merge_entry_Inl_iff)
  from Cons.prems(1) x have k: "k \<noteq> ''__proto__''" by auto
  from merge_entry_basic(2,4)[OF step Cons.prems(3)] k Cons.prems(2)
  have "tidy (own acc1)" "proto acc1 = None" by simp_all
  with Cons.IH[of acc1 h1] Cons.prems(1) obtain h' acc' where
    "reduce merge_entry (h1, acc1) xs = Inr (h', acc')" by auto
  with step show ?case by (simp add: x)
qed

lemma mergeSchemas_returns:
  assumes "\<forall>m \<in> set ms. ''__proto__'' \<notin> own_keys m"
  shows "\<exists>h' out. mergeSchemas h ms = Inr (h', out)"
proof -
  from assms have "''__proto__'' \<notin> fst ` set (concat (map own ms))" by (auto simp: own_keys_def)
  from reduce_merge_returns[OF this, of "JSRecord [] None" h] show ?thesis
    by (simp add: mergeSchemas_concat)
qed

lemma mergeSchemas_fails:
  "mergeSchemas h ms = Inl e \<Longrightarrow> (\<exists>k. e = ZodMember k) \<and> (\<exists>m \<in> set ms. ''__proto__'' \<in> own_keys m)"
proof -
  assume f: "mergeSchemas h ms = Inl e"
  with mergeSchemas_not_overflow[of h ms] have "\<exists>k. e = ZodMember k" by (cases e) auto
  moreover from f mergeSchemas_returns[of ms h] have "\<exists>m \<in> set ms. ''__proto__'' \<in> own_keys m"
    by auto
  ultimately show ?thesis by simp
qed

subsection \<open>The value a merge holds for a key\<close>

lemma occurrences_snoc:
  "occurrences (es @ [(k, v)]) k' = (if k' = k then occurrences es k @ [v] else occurrences es k')"
  by (auto simp: occurrences_def)

lemma occurrences_Nil_iff: "occurrences es k = [] \<longleftrightarrow> k \<notin> fst ` set es"
  by (induction es) (auto simp: occurrences_def)

lemma folded_extend:
  assumes "folded h0 vs h x" "extends h h'"
  shows "folded h0 vs h' x"
proof (cases vs)
  case Nil
  then show ?thesis using assms by (simp add: folded_def)
next
  case (Cons v1 ws)
  show ?thesis
  proof (cases ws)
    case Nil
    then show ?thesis using assms Cons by (simp add: folded_def)
  next
    case (Cons v2 rest)
    with \<open>vs = v1 # ws\<close> assms obtain u where
      u: "x = Some (Addr u)" "length h0 \<le> u"
        "deref h (Addr u) = Some (ZodUnion (splice h0 v1 @ v2 # rest))"
      by (auto simp: folded_def)
    from deref_extends[OF assms(2) u(3)] u Cons \<open>vs = v1 # ws\<close> show ?thesis
      by (auto simp: folded_def)
  qed
qed

lemma splice_extends: "extends h h' \<Longrightarrow> allocated h v \<Longrightarrow> splice h' v = splice h v"
  by (simp add: splice_def deref_extends_allocated)

lemma folded_snoc:
  assumes f: "folded h0 vs h (Some current)" and pre: "extends h0 h"
    and valid: "\<forall>v \<in> set vs. allocated h0 v"
  shows "current \<noteq> Undefined"
    "folded h0 (vs @ [w]) (h @ [ZodUnion (splice h current @ [w])]) (Some (Addr (length h)))"
proof -
  have "current \<noteq> Undefined \<and>
    folded h0 (vs @ [w]) (h @ [ZodUnion (splice h current @ [w])]) (Some (Addr (length h)))"
  proof (cases vs)
    case Nil
    then show ?thesis using f by (simp add: folded_def)
  next
    case (Cons v1 ws)
    show ?thesis
    proof (cases ws)
      case Nil
      with Cons f have cur: "current = v1" by (simp add: folded_def)
      from valid Cons have a: "allocated h0 v1" by simp
      with pre have "splice h v1 = splice h0 v1" by (rule splice_extends)
      moreover from a have "v1 \<noteq> Undefined" by (auto simp: allocated_def)
      ultimately show ?thesis using cur Nil Cons pre
        by (auto simp: folded_def deref_fresh dest: extends_length)
    next
      case (Cons v2 rest)
      with \<open>vs = v1 # ws\<close> f obtain u where
        u: "current = Addr u" "length h0 \<le> u"
          "deref h (Addr u) = Some (ZodUnion (splice h0 v1 @ v2 # rest))"
        by (auto simp: folded_def)
      then have "splice h current = splice h0 v1 @ v2 # rest" by (simp add: splice_def)
      with Cons \<open>vs = v1 # ws\<close> pre u(1) show ?thesis
        by (auto simp: folded_def deref_fresh dest: extends_length)
    qed
  qed
  then show "current \<noteq> Undefined"
    "folded h0 (vs @ [w]) (h @ [ZodUnion (splice h current @ [w])]) (Some (Addr (length h)))"
    by simp_all
qed

lemma merged_Nil: "merged h [] h (JSRecord [] None)"
  by (simp add: merged_def occurrences_def folded_def own_keys_def)

lemma merge_entry_merged:
  assumes inv: "merged h0 es h acc"
    and valid: "\<forall>e \<in> set es. allocated h0 (snd e)"
    and key: "k \<notin> set object_prototype_keys"
  shows "\<exists>h' acc'. merge_entry (h, acc) (k, v) = Inr (h', acc') \<and> merged h0 (es @ [(k, v)]) h' acc'"
proof (cases "map_of (own acc) k")
  case None
  from inv have p: "proto acc = None" and t: "tidy (own acc)" by (simp_all add: merged_def)
  from None p key have step: "merge_entry (h, acc) (k, v) = Inr (h, JSRecord (assign (own acc) k v) None)"
    by (rule merge_entry_fresh)
  from None have absent: "k \<notin> fst ` set (own acc)" by (simp add: map_of_eq_None_iff)
  with inv have "occurrences es k = []"
    by (simp add: merged_def occurrences_Nil_iff own_keys_def)
  then have "folded h0 (occurrences (es @ [(k, v)]) k') h (map_of (assign (own acc) k v) k')" for k'
    using inv by (auto simp: occurrences_snoc merged_def folded_def)
  moreover from key have "k \<noteq> ''__proto__''" by (rule proto_not_inherited_key)
  ultimately have "merged h0 (es @ [(k, v)]) h (JSRecord (assign (own acc) k v) None)"
    using inv t by (auto simp: merged_def tidy_assign own_keys_def)
  with step show ?thesis by blast
next
  case (Some current)
  from inv have pre: "extends h0 h" and fold: "\<And>k. folded h0 (occurrences es k) h (map_of (own acc) k)"
    and p: "proto acc = None" and t: "tidy (own acc)"
    by (simp_all add: merged_def)
  have "\<forall>x \<in> set (occurrences es k). allocated h0 x"
    using valid by (auto simp: occurrences_def)
  note fs = folded_snoc[OF fold[of k, unfolded Some] pre this]
  from fs(1) have cur: "current \<noteq> Undefined" .
  from fs(2)[of v]
  have new: "folded h0 (occurrences es k @ [v]) (h @ [ZodUnion (splice h current @ [v])])
                (Some (Addr (length h)))" .
  let ?h' = "h @ [ZodUnion (splice h current @ [v])]"
  let ?acc' = "JSRecord (AList.update k (Addr (length h)) (own acc)) (proto acc)"
  from Some cur have step: "merge_entry (h, acc) (k, v) = Inr (?h', ?acc')"
    by (rule merge_entry_present)
  have pre': "extends h ?h'" by simp
  have "folded h0 (occurrences (es @ [(k, v)]) k') ?h' (map_of (own ?acc') k')" for k'
  proof (cases "k' = k")
    case True
    with new show ?thesis by (simp add: occurrences_snoc update_conv')
  next
    case False
    with folded_extend[OF fold[of k'] pre'] show ?thesis
      by (simp add: occurrences_snoc update_conv')
  qed
  moreover from Some have "k \<in> fst ` set (own acc)"
    using map_of_eq_None_iff[of "own acc" k] by simp
  moreover have "extends h0 ?h'" using pre pre' by (rule extends_trans)
  moreover from merge_entry_basic(2)[OF step t] have "tidy (own ?acc')" .
  ultimately have "merged h0 (es @ [(k, v)]) ?h' ?acc'" using inv p
    by (auto simp: merged_def own_keys_def dom_update insert_absorb)
  with step show ?thesis by blast
qed

lemma reduce_merged:
  assumes "merged h0 es h acc"
    and "\<forall>e \<in> set (es @ xs). allocated h0 (snd e)"
    and "fst ` set xs \<inter> set object_prototype_keys = {}"
  shows "\<exists>h' acc'. reduce merge_entry (h, acc) xs = Inr (h', acc') \<and> merged h0 (es @ xs) h' acc'"
  using assms
proof (induction xs arbitrary: es h acc)
  case Nil
  then show ?case by simp
next
  case (Cons x xs)
  obtain k v where x: "x = (k, v)" by (cases x)
  from Cons.prems(3) x have key: "k \<notin> set object_prototype_keys" by auto
  from Cons.prems(2) have "\<forall>e \<in> set es. allocated h0 (snd e)" by simp
  from merge_entry_merged[OF Cons.prems(1) this key, of v] obtain h1 acc1 where
    step: "merge_entry (h, acc) (k, v) = Inr (h1, acc1)" and m: "merged h0 (es @ [(k, v)]) h1 acc1"
    by blast
  from Cons.IH[OF m] Cons.prems(2,3) obtain h' acc' where
    "reduce merge_entry (h1, acc1) xs = Inr (h', acc')" "merged h0 ((es @ [(k, v)]) @ xs) h' acc'"
    by (auto simp: x)
  with step show ?case by (simp add: x)
qed

lemma mergeSchemas_merged:
  assumes "\<forall>m \<in> set ms. \<forall>e \<in> set (own m). allocated h (snd e)"
    and "\<forall>m \<in> set ms. own_keys m \<inter> set object_prototype_keys = {}"
  shows "\<exists>h' out. mergeSchemas h ms = Inr (h', out) \<and> merged h (concat (map own ms)) h' out"
proof -
  from assms(1) have "\<forall>e \<in> set ([] @ concat (map own ms)). allocated h (snd e)" by auto
  moreover from assms(2) have "fst ` set (concat (map own ms)) \<inter> set object_prototype_keys = {}"
    by (auto simp: own_keys_def)
  ultimately show ?thesis
    using reduce_merged[OF merged_Nil, of "concat (map own ms)" h]
    by (simp add: mergeSchemas_concat)
qed

subsection \<open>The merge of branch maps\<close>

lemma occurrences_distinct:
  "distinct (map fst m) \<Longrightarrow> occurrences m k = (case map_of m k of None \<Rightarrow> [] | Some v \<Rightarrow> [v])"
proof (induction m)
  case Nil
  then show ?case by (simp add: occurrences_def)
next
  case (Cons e m)
  obtain k' v' where e: "e = (k', v')" by (cases e)
  show ?case
  proof (cases "k' = k")
    case True
    with Cons.prems e have "k \<notin> fst ` set m" by auto
    then have "occurrences m k = []" by (simp add: occurrences_Nil_iff)
    with True e show ?thesis by (simp add: occurrences_def)
  next
    case False
    with Cons e show ?thesis by (simp add: occurrences_def)
  qed
qed

lemma occurrences_concat:
  "occurrences (concat ms) k = concat (map (\<lambda>m. occurrences m k) ms)"
  by (induction ms) (simp_all add: occurrences_def)

lemma occurrences_branch_values:
  "\<forall>m \<in> set ms. distinct (map fst (own m)) \<Longrightarrow>
   occurrences (concat (map own ms)) k = branch_values ms k"
  by (simp add: occurrences_concat branch_values_def occurrences_distinct comp_def cong: map_cong)

subsection \<open>Merging a record that a merge returned\<close>

lemma reduce_merge_ordered:
  assumes "distinct (map fst (props @ xs))" "js_ordered (props @ xs)"
    "fst ` set xs \<inter> set object_prototype_keys = {}"
  shows "reduce merge_entry (h, JSRecord props None) xs = Inr (h, JSRecord (props @ xs) None)"
  using assms
proof (induction xs arbitrary: props)
  case Nil
  then show ?case by simp
next
  case (Cons x xs)
  obtain k v where x: "x = (k, v)" by (cases x)
  from Cons.prems(1) x have absent: "k \<notin> fst ` set props" by auto
  then have none: "map_of (own (JSRecord props None)) k = None" by (simp add: map_of_eq_None_iff)
  from Cons.prems(3) x have key: "k \<notin> set object_prototype_keys" by auto
  from Cons.prems(2) x have "js_ordered (props @ [(k, v)])"
    by (simp add: js_ordered_def sorted_wrt_append)
  with absent have "assign props k v = props @ [(k, v)]" by (intro assign_last)
  with merge_entry_fresh[OF none _ key, of h v]
  have step: "merge_entry (h, JSRecord props None) (k, v) = Inr (h, JSRecord (props @ [(k, v)]) None)"
    by simp
  from Cons.prems x have "reduce merge_entry (h, JSRecord (props @ [(k, v)]) None) xs =
      Inr (h, JSRecord ((props @ [(k, v)]) @ xs) None)"
    by (intro Cons.IH) auto
  with step show ?case by (simp add: x)
qed

lemma mergeSchemas_single:
  assumes "tidy (own m)" "own_keys m \<inter> set object_prototype_keys = {}"
  shows "mergeSchemas h [m] = Inr (h, JSRecord (own m) None)"
proof -
  from assms have "reduce merge_entry (h, JSRecord [] None) (own m) = Inr (h, JSRecord ([] @ own m) None)"
    by (intro reduce_merge_ordered) (simp_all add: tidy_def own_keys_def)
  then show ?thesis by (simp add: mergeSchemas_concat)
qed


lemma jsrecord_eq: "proto m = None \<Longrightarrow> JSRecord (own m) None = m"
  by (cases m) simp


subsection \<open>A deeper stack changes no result\<close>

lemma refinesD: "refines rec rec' \<Longrightarrow> rec h s p = Inr r \<Longrightarrow> rec' h s p = Inr r"
  unfolding refines_def by blast

lemma map_heap_mono:
  assumes "\<And>h x r. f h x = Inr r \<Longrightarrow> g h x = Inr r"
    and "map_heap f h xs = Inr r"
  shows "map_heap g h xs = Inr r"
  using assms(2)
proof (induction xs arbitrary: h r)
  case Nil
  then show ?case by simp
next
  case (Cons x xs)
  from Cons.prems obtain h1 y h2 ys where
    fx: "f h x = Inr (h1, y)" and rest: "map_heap f h1 xs = Inr (h2, ys)" and r: "r = (h2, y # ys)"
    by (auto split: sum.splits prod.splits)
  from fx have "g h x = Inr (h1, y)" by (rule assms(1))
  moreover from rest have "map_heap g h1 xs = Inr (h2, ys)" by (rule Cons.IH)
  ultimately show ?case by (simp add: r)
qed

lemma with_child_mono:
  "refines rec rec' \<Longrightarrow> with_child rec h k v = Inr r \<Longrightarrow> with_child rec' h k v = Inr r"
  by (auto simp: with_child_def split: sum.splits dest: refinesD)

lemma dispatch_mono:
  assumes "refines rec rec'"
  shows "refines (dispatch rec) (dispatch rec')"
  unfolding refines_def
proof (intro allI impI)
  fix h s p r
  assume run: "dispatch rec h s p = Inr r"
  show "dispatch rec' h s p = Inr r"
  proof (cases "deref h s")
    case None
    with run show ?thesis by (simp add: dispatch_def)
  next
    case (Some z)
    show ?thesis
    proof (cases z)
      case (ZodObject shape)
      with Some run obtain h1 flats where
        m: "map_heap (\<lambda>h' (key, value). with_child rec h' (object_key p key) value)
              h shape = Inr (h1, flats)"
        and r: "mergeSchemas h1 flats = Inr r"
        by (auto simp: dispatch_def split: sum.splits)
      from m have "map_heap (\<lambda>h' (key, value). with_child rec' h' (object_key p key) value)
              h shape = Inr (h1, flats)"
        by (rule map_heap_mono[rotated]) (auto intro: with_child_mono[OF assms])
      with Some ZodObject r show ?thesis by (simp add: dispatch_def)
    next
      case (ZodArray e)
      with Some run show ?thesis by (auto simp: dispatch_def intro: with_child_mono[OF assms])
    next
      case (ZodTuple elements)
      with Some run obtain h1 flats where
        m: "map_heap (\<lambda>h' (index, element). with_child rec h' (tuple_key p index) element)
              h (enumerate 0 elements) = Inr (h1, flats)"
        and r: "mergeSchemas h1 flats = Inr r"
        by (auto simp: dispatch_def split: sum.splits)
      from m have "map_heap (\<lambda>h' (index, element). with_child rec' h' (tuple_key p index) element)
              h (enumerate 0 elements) = Inr (h1, flats)"
        by (rule map_heap_mono[rotated]) (auto intro: with_child_mono[OF assms])
      with Some ZodTuple r show ?thesis by (simp add: dispatch_def)
    next
      case (ZodUnion options)
      with Some run obtain h1 flats where
        m: "map_heap (\<lambda>h' option. rec h' option p) h options = Inr (h1, flats)"
        and r: "mergeSchemas h1 flats = Inr r"
        by (auto simp: dispatch_def split: sum.splits)
      from m have "map_heap (\<lambda>h' option. rec' h' option p) h options = Inr (h1, flats)"
        by (rule map_heap_mono[rotated]) (auto intro: refinesD[OF assms])
      with Some ZodUnion r show ?thesis by (simp add: dispatch_def)
    qed (use Some run in \<open>simp_all add: dispatch_def\<close>)
  qed
qed

lemma unwrapSchema_Suc: "unwrapSchema n h s = Inr u \<Longrightarrow> unwrapSchema (Suc n) h s = Inr u"
proof (induction n arbitrary: s)
  case 0
  then show ?case by simp
next
  case (Suc n)
  show ?case
  proof (cases "deref h s")
    case None
    with Suc.prems show ?thesis by simp
  next
    case (Some z)
    with Suc.prems Suc.IH show ?thesis
      by (cases z) (simp_all del: unwrapSchema.simps(2) add: unwrapSchema.simps(2)[of "Suc n"] unwrapSchema.simps(2)[of n])
  qed
qed

lemma unwrapSchema_more: "unwrapSchema n h s = Inr u \<Longrightarrow> unwrapSchema (n + k) h s = Inr u"
  by (induction k) (auto dest: unwrapSchema_Suc)

subsection \<open>The flatteners as one match on the kind\<close>

lemma only_allocatesD: "only_allocates rec \<Longrightarrow> rec h s p = Inr (h', m) \<Longrightarrow> grows h h'"
  unfolding only_allocates_def by blast

lemma map_heap_grows:
  assumes "\<And>h x h' y. f h x = Inr (h', y) \<Longrightarrow> grows h h'"
    and "map_heap f h xs = Inr (h', ys)"
  shows "grows h h'"
  using assms(2)
proof (induction xs arbitrary: h ys)
  case Nil
  then show ?case by (simp add: grows_refl)
next
  case (Cons x xs)
  from Cons.prems obtain h1 y zs where
    fx: "f h x = Inr (h1, y)" and rest: "map_heap f h1 xs = Inr (h', zs)"
    by (auto split: sum.splits prod.splits)
  from assms(1)[OF fx] Cons.IH[OF rest] show ?case by (rule grows_trans)
qed

lemma with_child_grows:
  assumes "only_allocates rec" "with_child rec h k v = Inr (h', m)"
  shows "grows h h'"
proof -
  from assms(2) obtain h1 sub where
    r: "rec h v k = Inr (h1, sub)" and m: "mergeSchemas h1 [JSRecord [(k, v)] None, sub] = Inr (h', m)"
    by (auto simp: with_child_def split: sum.splits)
  from only_allocatesD[OF assms(1) r] mergeSchemas_basic(1)[OF m] show ?thesis
    by (rule grows_trans)
qed

lemma dispatch_grows:
  assumes "only_allocates rec" "dispatch rec h s p = Inr (h', m)"
  shows "grows h h'"
proof (cases "deref h s")
  case None
  with assms(2) show ?thesis by (simp add: dispatch_def grows_refl)
next
  case (Some z)
  show ?thesis
  proof (cases z)
    case (ZodObject shape)
    with Some assms(2) obtain h1 flats where
      m: "map_heap (\<lambda>h' (key, value). with_child rec h' (object_key p key) value) h shape = Inr (h1, flats)"
      and r: "mergeSchemas h1 flats = Inr (h', m)"
      by (auto simp: dispatch_def split: sum.splits)
    from m have "grows h h1"
      by (rule map_heap_grows[rotated]) (auto intro: with_child_grows[OF assms(1)])
    with mergeSchemas_basic(1)[OF r] show ?thesis by (rule grows_trans[rotated])
  next
    case (ZodArray e)
    with Some assms show ?thesis by (auto simp: dispatch_def intro: with_child_grows)
  next
    case (ZodTuple elements)
    with Some assms(2) obtain h1 flats where
      m: "map_heap (\<lambda>h' (index, element). with_child rec h' (tuple_key p index) element) h (enumerate 0 elements) = Inr (h1, flats)"
      and r: "mergeSchemas h1 flats = Inr (h', m)"
      by (auto simp: dispatch_def split: sum.splits)
    from m have "grows h h1"
      by (rule map_heap_grows[rotated]) (auto intro: with_child_grows[OF assms(1)])
    with mergeSchemas_basic(1)[OF r] show ?thesis by (rule grows_trans[rotated])
  next
    case (ZodUnion options)
    with Some assms(2) obtain h1 flats where
      m: "map_heap (\<lambda>h' option. rec h' option p) h options = Inr (h1, flats)"
      and r: "mergeSchemas h1 flats = Inr (h', m)"
      by (auto simp: dispatch_def split: sum.splits)
    from m have "grows h h1"
      by (rule map_heap_grows[rotated]) (auto intro: only_allocatesD[OF assms(1)])
    with mergeSchemas_basic(1)[OF r] show ?thesis by (rule grows_trans[rotated])
  qed (use Some assms(2) in \<open>simp_all add: dispatch_def grows_refl\<close>)
qed

lemma mergeSchemas_pad:
  "mergeSchemas h [m, JSRecord [] None, JSRecord [] None, JSRecord [] None] = mergeSchemas h [m]"
  "mergeSchemas h [JSRecord [] None, m, JSRecord [] None, JSRecord [] None] = mergeSchemas h [m]"
  "mergeSchemas h [JSRecord [] None, JSRecord [] None, m, JSRecord [] None] = mergeSchemas h [m]"
  "mergeSchemas h [JSRecord [] None, JSRecord [] None, JSRecord [] None, m] = mergeSchemas h [m]"
  by (simp_all add: mergeSchemas_concat)

lemma mergeSchemas_empty: "mergeSchemas h [JSRecord [] None] = Inr (h, JSRecord [] None)"
  by (simp add: mergeSchemas_def)

text \<open>
  \<open>flattenSchema\<close> runs the flattener of the kind of the unwrapped schema, and merges
  what it returned once more (with the three empty maps of the other kinds).
\<close>

lemma flattenSchema_dispatch_aux:
  assumes "only_allocates rec"
  shows "(case flattenArraySchema rec h u p of
        Inl e \<Rightarrow> Inl e
      | Inr (h1, a) \<Rightarrow>
     (case flattenTupleSchema rec h1 u p of
        Inl e \<Rightarrow> Inl e
      | Inr (h2, t) \<Rightarrow>
     (case flattenObjectSchema rec h2 u p of
        Inl e \<Rightarrow> Inl e
      | Inr (h3, ob) \<Rightarrow>
     (case flattenUnionSchema rec h3 u p of
        Inl e \<Rightarrow> Inl e
      | Inr (h4, un) \<Rightarrow> mergeSchemas h4 [a, t, ob, un])))) =
     (case dispatch rec h u p of Inl e \<Rightarrow> Inl e | Inr (h1, m) \<Rightarrow> mergeSchemas h1 [m])"
proof (cases "deref h u")
  case None
  then show ?thesis
    by (simp add: dispatch_def flattenArraySchema_def flattenTupleSchema_def
        flattenObjectSchema_def flattenUnionSchema_def mergeSchemas_pad)
next
  case (Some z)
  show ?thesis
  proof (cases z)
    case (ZodArray e)
    have d: "flattenArraySchema rec h u p = dispatch rec h u p"
      using Some ZodArray by (simp add: dispatch_def flattenArraySchema_def)
    show ?thesis
    proof (cases "dispatch rec h u p")
      case (Inl err)
      with d show ?thesis by simp
    next
      case (Inr r)
      obtain h1 m where r: "r = (h1, m)" by (cases r)
      from deref_grows[OF dispatch_grows[OF assms Inr[unfolded r]] Some]
      have "deref h1 u = Some z" .
      with ZodArray Inr r d show ?thesis
        by (simp add: flattenTupleSchema_def flattenObjectSchema_def flattenUnionSchema_def
            mergeSchemas_pad)
    qed
  next
    case (ZodTuple elements)
    have d: "flattenTupleSchema rec h u p = dispatch rec h u p"
      using Some ZodTuple by (simp add: dispatch_def flattenTupleSchema_def)
    show ?thesis
    proof (cases "dispatch rec h u p")
      case (Inl err)
      with Some ZodTuple d show ?thesis by (simp add: flattenArraySchema_def)
    next
      case (Inr r)
      obtain h1 m where r: "r = (h1, m)" by (cases r)
      from deref_grows[OF dispatch_grows[OF assms Inr[unfolded r]] Some]
      have "deref h1 u = Some z" .
      with Some ZodTuple Inr r d show ?thesis
        by (simp add: flattenArraySchema_def flattenObjectSchema_def flattenUnionSchema_def
            mergeSchemas_pad)
    qed
  next
    case (ZodObject shape)
    have d: "flattenObjectSchema rec h u p = dispatch rec h u p"
      using Some ZodObject by (simp add: dispatch_def flattenObjectSchema_def)
    show ?thesis
    proof (cases "dispatch rec h u p")
      case (Inl err)
      with Some ZodObject d show ?thesis by (simp add: flattenArraySchema_def flattenTupleSchema_def)
    next
      case (Inr r)
      obtain h1 m where r: "r = (h1, m)" by (cases r)
      from deref_grows[OF dispatch_grows[OF assms Inr[unfolded r]] Some]
      have "deref h1 u = Some z" .
      with Some ZodObject Inr r d show ?thesis
        by (simp add: flattenArraySchema_def flattenTupleSchema_def flattenUnionSchema_def
            mergeSchemas_pad)
    qed
  next
    case (ZodUnion options)
    have d: "flattenUnionSchema rec h u p = dispatch rec h u p"
      using Some ZodUnion by (simp add: dispatch_def flattenUnionSchema_def)
    show ?thesis
    proof (cases "dispatch rec h u p")
      case (Inl err)
      with Some ZodUnion d show ?thesis
        by (simp add: flattenArraySchema_def flattenTupleSchema_def flattenObjectSchema_def)
    next
      case (Inr r)
      obtain h1 m where r: "r = (h1, m)" by (cases r)
      with Some ZodUnion Inr r d show ?thesis
        by (simp add: flattenArraySchema_def flattenTupleSchema_def flattenObjectSchema_def
            mergeSchemas_pad)
    qed
  qed (use Some in \<open>simp_all add: dispatch_def flattenArraySchema_def flattenTupleSchema_def
        flattenObjectSchema_def flattenUnionSchema_def mergeSchemas_pad\<close>)
qed

lemma flattenSchema_only_allocates: "only_allocates (flattenSchema n)"
proof (induction n)
  case 0
  then show ?case by (simp add: only_allocates_def)
next
  case (Suc n)
  show ?case
    unfolding only_allocates_def
  proof (intro allI impI)
    fix h s p h' m
    assume "flattenSchema (Suc n) h s p = Inr (h', m)"
    then obtain u h1 m1 where "dispatch (flattenSchema n) h u p = Inr (h1, m1)"
      "mergeSchemas h1 [m1] = Inr (h', m)"
      by (auto simp: flattenSchema_dispatch_aux[OF Suc] split: sum.splits)
    from dispatch_grows[OF Suc this(1)] mergeSchemas_basic(1)[OF this(2)]
    show "grows h h'" by (rule grows_trans)
  qed
qed

lemma flattenSchema_dispatch:
  "flattenSchema (Suc n) h s p =
     (case unwrapSchema n h s of
        Inl e \<Rightarrow> Inl e
      | Inr u \<Rightarrow>
          (case dispatch (flattenSchema n) h u p of
             Inl e \<Rightarrow> Inl e
           | Inr (h1, m) \<Rightarrow> mergeSchemas h1 [m]))"
  by (simp add: flattenSchema_dispatch_aux[OF flattenSchema_only_allocates] split: sum.splits)

lemma flattenSchema_Suc: "refines (flattenSchema n) (flattenSchema (Suc n))"
proof (induction n)
  case 0
  then show ?case by (simp add: refines_def)
next
  case (Suc n)
  show ?case
    unfolding refines_def
  proof (intro allI impI)
    fix h s p r
    assume run: "flattenSchema (Suc n) h s p = Inr r"
    then obtain u h1 m where
      steps: "unwrapSchema n h s = Inr u" "dispatch (flattenSchema n) h u p = Inr (h1, m)"
        "mergeSchemas h1 [m] = Inr r"
      by (auto simp: flattenSchema_dispatch simp del: flattenSchema.simps split: sum.splits)
    from steps(1) have "unwrapSchema (Suc n) h s = Inr u" by (rule unwrapSchema_Suc)
    moreover have "dispatch (flattenSchema (Suc n)) h u p = Inr (h1, m)"
      by (rule refinesD[OF dispatch_mono[OF Suc] steps(2)])
    ultimately show "flattenSchema (Suc (Suc n)) h s p = Inr r"
      using steps(3)
      by (subst flattenSchema_dispatch) (simp del: flattenSchema.simps unwrapSchema.simps)
  qed
qed

lemma flattenSchema_more: "flattenSchema n h s p = Inr r \<Longrightarrow> flattenSchema (n + k) h s p = Inr r"
  by (induction k) (auto dest: refinesD[OF flattenSchema_Suc])

lemma flatten_more: "flatten n h s = Inr r \<Longrightarrow> flatten (n + k) h s = Inr r"
  by (simp add: flatten_def flattenSchema_more)

lemma resolve_more: "resolve n h s key = Inr r \<Longrightarrow> resolve (n + k) h s key = Inr r"
  by (auto simp: resolve_def split: sum.splits dest: flatten_more[where k = k])

text \<open>What \<open>flattenSchema\<close> returns is a tidy record with the prototype of a literal.\<close>

lemma flattenSchema_record:
  assumes "flattenSchema n h s p = Inr (h', m)"
  shows "tidy (own m)" "proto m = None"
proof -
  from assms obtain i where n: "n = Suc i" by (cases n) auto
  from assms[unfolded n] obtain u h1 m1 where
    d: "dispatch (flattenSchema i) h u p = Inr (h1, m1)" and mg: "mergeSchemas h1 [m1] = Inr (h', m)"
    by (auto simp: flattenSchema_dispatch simp del: flattenSchema.simps split: sum.splits)
  have "tidy (own m1)"
  proof (cases "deref h u")
    case None
    with d show ?thesis by (auto simp: dispatch_def)
  next
    case (Some z)
    with d show ?thesis
      by (cases z) (auto simp: dispatch_def with_child_def split: sum.splits dest: mergeSchemas_basic(2))
  qed
  then have "''__proto__'' \<notin> own_keys m1" by (simp add: tidy_def own_keys_def)
  with mergeSchemas_basic(2,4)[OF mg] show "tidy (own m)" "proto m = None" by simp_all
qed

subsection \<open>What the calls on the children return\<close>

lemma unwrapSchema_fails: "unwrapSchema n h s = Inl e \<Longrightarrow> e = StackOverflow"
proof (induction n arbitrary: s)
  case 0
  then show ?case by simp
next
  case (Suc n)
  show ?case
  proof (cases "deref h s")
    case None
    with Suc.prems show ?thesis by simp
  next
    case (Some z)
    with Suc show ?thesis by (cases z) auto
  qed
qed

lemma map_heap_fails:
  assumes gr: "\<And>h0 x h1 y. f h0 x = Inr (h1, y) \<Longrightarrow> grows h0 h1"
    and "map_heap f h xs = Inl e"
  shows "\<exists>x \<in> set xs. \<exists>h0. grows h h0 \<and> f h0 x = Inl e"
  using assms(2)
proof (induction xs arbitrary: h)
  case Nil
  then show ?case by simp
next
  case (Cons x xs)
  show ?case
  proof (cases "f h x")
    case (Inl e')
    with Cons.prems have "f h x = Inl e" by simp
    then show ?thesis using grows_refl by auto
  next
    case (Inr r)
    obtain h1 y where r: "r = (h1, y)" by (cases r)
    with Inr Cons.prems have "map_heap f h1 xs = Inl e" by (auto split: sum.splits)
    from Cons.IH[OF this] obtain x' h0 where "x' \<in> set xs" "grows h1 h0" "f h0 x' = Inl e" by blast
    with gr[OF Inr[unfolded r]] show ?thesis by (auto intro: grows_trans)
  qed
qed

lemma enumerate_member: "e \<in> set (enumerate 0 xs) \<Longrightarrow> snd e \<in> set xs"
  by (cases e) (auto simp: in_set_enumerate_eq)

lemma object_key_proto: "object_key p name = ''__proto__'' \<Longrightarrow> p = [] \<and> name = ''__proto__''"
proof -
  assume k: "object_key p name = ''__proto__''"
  have "p = []"
  proof (rule ccontr)
    assume "p \<noteq> []"
    with k have "p @ ''.'' @ name = ''__proto__''" by (simp add: object_key_def)
    then have "CHR ''.'' \<in> set ''__proto__''" by (metis in_set_conv_decomp append_Cons append_Nil)
    then show False by simp
  qed
  with k show ?thesis by (simp add: object_key_def)
qed

lemma bracket_key_proto: "q @ '']'' \<noteq> ''__proto__''"
proof
  assume "q @ '']'' = ''__proto__''"
  then have "last (q @ '']'') = last ''__proto__''" by simp
  then show False by simp
qed

lemma tuple_key_proto: "tuple_key p i \<noteq> ''__proto__''"
  using bracket_key_proto[of "p @ ''['' @ decimal i"] by (simp add: tuple_key_def)

lemma array_key_proto: "p @ ''[]'' \<noteq> ''__proto__''"
  using bracket_key_proto[of "p @ ''[''"] by simp

lemma returns_tidyD: "returns_tidy rec \<Longrightarrow> rec h s p = Inr (h', m) \<Longrightarrow> tidy (own m)"
  unfolding returns_tidy_def by blast

lemma flattenSchema_returns_tidy: "returns_tidy (flattenSchema n)"
  unfolding returns_tidy_def by (blast intro: flattenSchema_record(1))

lemma with_child_tidy: "with_child rec h k v = Inr (h', m) \<Longrightarrow> tidy (own m)"
  by (auto simp: with_child_def split: sum.splits dest: mergeSchemas_basic(2))

lemma mergeSchemas_tidy_returns:
  assumes "\<forall>m \<in> set ms. tidy (own m)"
  shows "\<exists>h' out. mergeSchemas h ms = Inr (h', out)"
  using assms by (intro mergeSchemas_returns) (auto simp: tidy_def own_keys_def)

lemma map_heap_results:
  assumes "map_heap f h xs = Inr (h', ys)"
  shows "list_all2 (\<lambda>x y. \<exists>h0 h1. f h0 x = Inr (h1, y)) xs ys"
  using assms
proof (induction xs arbitrary: h ys)
  case Nil
  then show ?case by simp
next
  case (Cons x xs)
  from Cons.prems obtain h1 y zs where
    fx: "f h x = Inr (h1, y)" and rest: "map_heap f h1 xs = Inr (h', zs)" and ys: "ys = y # zs"
    by (auto split: sum.splits prod.splits)
  from Cons.IH[OF rest] fx show ?case unfolding ys by blast
qed

lemma list_all2_member:
  assumes "list_all2 P xs ys" "y \<in> set ys"
  obtains x where "x \<in> set xs" "P x y"
  using assms by (induction rule: list_all2_induct) auto

lemma map_heap_tidy:
  assumes "map_heap f h xs = Inr (h', ys)" "\<And>h0 x h1 y. f h0 x = Inr (h1, y) \<Longrightarrow> tidy (own y)"
  shows "\<forall>y \<in> set ys. tidy (own y)"
proof
  fix y assume "y \<in> set ys"
  with map_heap_results[OF assms(1)] obtain x where "\<exists>h0 h1. f h0 x = Inr (h1, y)"
    by (rule list_all2_member)
  with assms(2) show "tidy (own y)" by blast
qed

lemma dispatch_tidy:
  assumes "dispatch rec h u p = Inr (h', m)"
  shows "tidy (own m)"
proof (cases "deref h u")
  case None
  with assms show ?thesis by (auto simp: dispatch_def)
next
  case (Some z)
  with assms show ?thesis
    by (cases z) (auto simp: dispatch_def with_child_def split: sum.splits dest: mergeSchemas_basic(2))
qed

subsection \<open>The shape of the keys\<close>

lemma below_iff: "below q k \<longleftrightarrow> (\<exists>c rest. k = q @ c # rest \<and> (c = CHR ''.'' \<or> c = CHR ''[''))"
proof
  assume b: "below q k"
  then have "k = take (length q) k @ drop (length q) k" by simp
  moreover from b have "drop (length q) k = k ! length q # drop (Suc (length q)) k"
    by (simp add: below_def Cons_nth_drop_Suc)
  ultimately have "k = q @ k ! length q # drop (Suc (length q)) k"
    using b by (simp add: below_def)
  with b show "\<exists>c rest. k = q @ c # rest \<and> (c = CHR ''.'' \<or> c = CHR ''['')"
    unfolding below_def by blast
next
  assume "\<exists>c rest. k = q @ c # rest \<and> (c = CHR ''.'' \<or> c = CHR ''['')"
  then show "below q k" by (auto simp: below_def)
qed

lemma below_neq: "below q k \<Longrightarrow> k \<noteq> q"
  by (auto simp: below_def)

lemma below_step:
  assumes "c = CHR ''.'' \<or> c = CHR ''[''"
  shows "below q (q @ c # rest)" "below (q @ c # rest) k \<Longrightarrow> below q k"
proof -
  show "below q (q @ c # rest)" using assms by (auto simp: below_iff)
  assume "below (q @ c # rest) k"
  then obtain c' rest' where "k = (q @ c # rest) @ c' # rest'" by (auto simp: below_iff)
  then have "k = q @ c # (rest @ c' # rest')" by simp
  with assms show "below q k" unfolding below_iff by blast
qed

lemma below_array: "below p (p @ ''[]'')" "below (p @ ''[]'') k \<Longrightarrow> below p k"
  using below_step[of "CHR ''[''" p "'']''"] by simp_all

lemma below_tuple: "below p (tuple_key p i)" "below (tuple_key p i) k \<Longrightarrow> below p k"
  using below_step[of "CHR ''[''" p "decimal i @ '']''"] by (simp_all add: tuple_key_def)

lemma below_object:
  assumes "p \<noteq> []"
  shows "below p (object_key p name)" "below (object_key p name) k \<Longrightarrow> below p k"
  using below_step[of "CHR ''.''" p name] assms by (simp_all add: object_key_def)

text \<open>
  A key with a dot or a bracket is neither the name of a member of \<open>Object.prototype\<close>
  nor an array index.
\<close>

lemma punctuated_not_inherited: "punctuated k \<Longrightarrow> k \<notin> set object_prototype_keys"
  by (auto simp: punctuated_def object_prototype_keys_def)

lemma digits_chars: "digits k = Some ds \<Longrightarrow> c \<in> set k \<Longrightarrow> digit c \<noteq> None"
  by (induction k arbitrary: ds) (auto split: option.splits)

lemma punctuated_not_index:
  assumes "punctuated k"
  shows "array_index k = None"
proof (cases "digits k")
  case None
  then show ?thesis by (simp add: array_index_def)
next
  case (Some ds)
  from assms digits_chars[OF Some] have "digit CHR ''.'' \<noteq> None \<or> digit CHR ''['' \<noteq> None"
    unfolding punctuated_def by blast
  then show ?thesis by (simp add: digit_def)
qed

lemma below_punctuated: "below q k \<Longrightarrow> punctuated k"
  by (auto simp: below_iff punctuated_def)

lemma below_plain:
  assumes "below q k"
  shows "k \<notin> set object_prototype_keys" "array_index k = None"
  using below_punctuated[OF assms] punctuated_not_inherited punctuated_not_index by blast+

lemma array_key_plain:
  "p @ ''[]'' \<notin> set object_prototype_keys" "array_index (p @ ''[]'') = None" "p @ ''[]'' \<noteq> []"
  using below_plain[OF below_array(1), of p] by simp_all

lemma tuple_key_plain:
  "tuple_key p i \<notin> set object_prototype_keys" "array_index (tuple_key p i) = None"
  "tuple_key p i \<noteq> []"
  using below_plain[OF below_tuple(1), of p i] by (simp_all add: tuple_key_def)

lemma object_key_plain:
  assumes "p = [] \<longrightarrow> name \<notin> set object_prototype_keys"
  shows "object_key p name \<notin> set object_prototype_keys"
proof (cases "p = []")
  case True
  with assms show ?thesis by (simp add: object_key_def)
next
  case False
  from below_plain(1)[OF below_object(1)[OF False]] show ?thesis .
qed

lemma well_keyedD:
  assumes "well_keyed rec" "rec h s p = Inr (h', m)"
  shows "tidy (own m)" "proto m = None" "p \<noteq> [] \<Longrightarrow> k \<in> own_keys m \<Longrightarrow> below p k"
  using assms unfolding well_keyed_def by blast+

lemma well_keyed_tidy: "well_keyed rec \<Longrightarrow> returns_tidy rec"
  unfolding returns_tidy_def by (blast dest: well_keyedD(1))

text \<open>A child at a path that is not empty: its entry, then its own entries.\<close>

lemma precedes_plain: "array_index k' = None \<Longrightarrow> precedes k k'"
  by (simp add: precedes_def split: option.splits)

lemma with_child_Cons:
  assumes wk: "well_keyed rec" and k: "k \<noteq> []" "k \<notin> set object_prototype_keys"
    and run: "with_child rec h k v = Inr (h', m)"
  shows "\<exists>sub. rec h v k = Inr (h', sub) \<and> m = JSRecord ((k, v) # own sub) None \<and>
           (\<forall>x \<in> own_keys sub. below k x)"
proof -
  from run obtain h1 sub where
    r: "rec h v k = Inr (h1, sub)"
    and mg: "mergeSchemas h1 [JSRecord [(k, v)] None, sub] = Inr (h', m)"
    by (auto simp: with_child_def split: sum.splits)
  from well_keyedD(3)[OF wk r k(1)] have bel: "\<forall>x \<in> own_keys sub. below k x" by blast
  then have "k \<notin> fst ` set (own sub)" by (auto simp: own_keys_def dest: below_neq)
  with well_keyedD(1)[OF wk r] have d: "distinct (map fst ([] @ (k, v) # own sub))"
    by (simp add: tidy_def)
  from bel have plain: "\<forall>x \<in> set (own sub). array_index (fst x) = None"
    "\<forall>x \<in> set (own sub). fst x \<notin> set object_prototype_keys"
    by (auto simp: own_keys_def dest: below_plain)
  from well_keyedD(1)[OF wk r] plain(1) have o: "js_ordered ([] @ (k, v) # own sub)"
    by (auto simp: tidy_def js_ordered_def intro: precedes_plain)
  from plain(2) k(2) have np: "fst ` set ((k, v) # own sub) \<inter> set object_prototype_keys = {}"
    by auto
  from reduce_merge_ordered[OF d o np, of h1] mg
  have "h' = h1" "m = JSRecord ((k, v) # own sub) None" by (simp_all add: mergeSchemas_concat)
  with r bel show ?thesis by simp
qed

lemma with_child_below:
  assumes wk: "well_keyed rec" and k: "below p k"
    and run: "with_child rec h k v = Inr (h', m)" and x: "x \<in> own_keys m"
    and step: "\<And>y. below k y \<Longrightarrow> below p y"
  shows "below p x"
proof -
  from k have "k \<noteq> []" by (auto simp: below_def)
  from with_child_Cons[OF wk this below_plain(1)[OF k] run] obtain sub where
    m: "m = JSRecord ((k, v) # own sub) None" and sub: "\<forall>x \<in> own_keys sub. below k x" by blast
  from x m have "x = k \<or> x \<in> own_keys sub" by (auto simp: own_keys_def)
  with k sub step show ?thesis by blast
qed

lemma mergeSchemas_key_source:
  assumes "mergeSchemas h ms = Inr (h', m)" "x \<in> own_keys m"
  obtains fl where "fl \<in> set ms" "x \<in> own_keys fl"
  using mergeSchemas_basic(3)[OF assms(1)] assms(2) by auto

lemma dispatch_below:
  assumes wk: "well_keyed rec" and p: "p \<noteq> []"
    and run: "dispatch rec h u p = Inr (h', m)" and x: "x \<in> own_keys m"
  shows "below p x"
proof (cases "deref h u")
  case None
  with run x show ?thesis by (auto simp: dispatch_def own_keys_def)
next
  case (Some z)
  show ?thesis
  proof (cases z)
    case (ZodObject shape)
    with Some run obtain h1 flats where
      mh: "map_heap (\<lambda>h' (key, value). with_child rec h' (object_key p key) value) h shape = Inr (h1, flats)"
      and mg: "mergeSchemas h1 flats = Inr (h', m)"
      by (auto simp: dispatch_def split: sum.splits)
    from mg x obtain fl where fl: "fl \<in> set flats" "x \<in> own_keys fl"
      by (rule mergeSchemas_key_source)
    from map_heap_results[OF mh] fl(1) obtain e where
      "e \<in> set shape" "\<exists>h0 h2. (case e of (key, value) \<Rightarrow> with_child rec h0 (object_key p key) value) = Inr (h2, fl)"
      by (rule list_all2_member)
    then obtain h0 h2 where
      w: "(case e of (key, value) \<Rightarrow> with_child rec h0 (object_key p key) value) = Inr (h2, fl)"
      by iprover
    obtain name c where "e = (name, c)" by (cases e)
    with w have "with_child rec h0 (object_key p name) c = Inr (h2, fl)" by simp
    then show ?thesis
      by (rule with_child_below[OF wk below_object(1)[OF p] _ fl(2) below_object(2)[OF p]])
  next
    case (ZodArray e)
    with Some run x show ?thesis
      by (auto simp: dispatch_def intro: with_child_below[OF wk below_array(1)] below_array(2))
  next
    case (ZodTuple elements)
    with Some run obtain h1 flats where
      mh: "map_heap (\<lambda>h' (index, element). with_child rec h' (tuple_key p index) element) h
             (enumerate 0 elements) = Inr (h1, flats)"
      and mg: "mergeSchemas h1 flats = Inr (h', m)"
      by (auto simp: dispatch_def split: sum.splits)
    from mg x obtain fl where fl: "fl \<in> set flats" "x \<in> own_keys fl"
      by (rule mergeSchemas_key_source)
    from map_heap_results[OF mh] fl(1) obtain e where
      "e \<in> set (enumerate 0 elements)"
      "\<exists>h0 h2. (case e of (index, element) \<Rightarrow> with_child rec h0 (tuple_key p index) element) = Inr (h2, fl)"
      by (rule list_all2_member)
    then obtain h0 h2 where
      w: "(case e of (index, element) \<Rightarrow> with_child rec h0 (tuple_key p index) element) = Inr (h2, fl)"
      by iprover
    obtain i el where "e = (i, el)" by (cases e)
    with w have "with_child rec h0 (tuple_key p i) el = Inr (h2, fl)" by simp
    then show ?thesis
      by (rule with_child_below[OF wk below_tuple(1) _ fl(2) below_tuple(2)])
  next
    case (ZodUnion options)
    with Some run obtain h1 flats where
      mh: "map_heap (\<lambda>h' option. rec h' option p) h options = Inr (h1, flats)"
      and mg: "mergeSchemas h1 flats = Inr (h', m)"
      by (auto simp: dispatch_def split: sum.splits)
    from mg x obtain fl where fl: "fl \<in> set flats" "x \<in> own_keys fl"
      by (rule mergeSchemas_key_source)
    from map_heap_results[OF mh] fl(1) obtain e where
      "e \<in> set options" "\<exists>h0 h2. rec h0 e p = Inr (h2, fl)"
      by (rule list_all2_member)
    then obtain h0 h2 where "rec h0 e p = Inr (h2, fl)" by iprover
    from well_keyedD(3)[OF wk this p fl(2)] show ?thesis .
  qed (use Some run x in \<open>auto simp: dispatch_def own_keys_def\<close>)
qed

lemma flattenSchema_well_keyed: "well_keyed (flattenSchema n)"
proof (induction n)
  case 0
  then show ?case by (simp add: well_keyed_def)
next
  case (Suc n)
  show ?case
    unfolding well_keyed_def
  proof (intro allI impI)
    fix h s p h' m
    assume run: "flattenSchema (Suc n) h s p = Inr (h', m)"
    then obtain u h1 m1 where d: "dispatch (flattenSchema n) h u p = Inr (h1, m1)"
      and mg: "mergeSchemas h1 [m1] = Inr (h', m)"
      by (auto simp: flattenSchema_dispatch split: sum.splits simp del: flattenSchema.simps)
    from mergeSchemas_basic(3)[OF mg] have "own_keys m \<subseteq> own_keys m1" by auto
    with dispatch_below[OF Suc _ d] flattenSchema_record[OF run]
    show "tidy (own m) \<and> proto m = None \<and> (p \<noteq> [] \<longrightarrow> (\<forall>k \<in> own_keys m. below p k))"
      by blast
  qed
qed

text \<open>
  When no key of the map that the flattener of the kind returned names a member of
  \<open>Object.prototype\<close>, the last merge of \<open>flattenSchema\<close> returns this map.
\<close>

lemma dispatch_proto:
  assumes "returns_tidy rec" "dispatch rec h u p = Inr (h', m)"
  shows "proto m = None"
proof (cases "deref h u")
  case None
  with assms(2) show ?thesis by (auto simp: dispatch_def)
next
  case (Some z)
  have wc: "''__proto__'' \<notin> own_keys y" if "with_child rec h0 k c = Inr (h1, y)" for h0 k c h1 y
    using with_child_tidy[OF that] by (simp add: tidy_def own_keys_def)
  show ?thesis
  proof (cases z)
    case (ZodObject shape)
    with Some assms(2) obtain h1 flats where
      mh: "map_heap (\<lambda>h' (key, value). with_child rec h' (object_key p key) value) h shape = Inr (h1, flats)"
      and mg: "mergeSchemas h1 flats = Inr (h', m)"
      by (auto simp: dispatch_def split: sum.splits)
    have "\<forall>y \<in> set flats. tidy (own y)"
      by (rule map_heap_tidy[OF mh]) (auto dest: with_child_tidy)
    then have "\<forall>x \<in> set flats. ''__proto__'' \<notin> own_keys x" by (simp add: tidy_def own_keys_def)
    from mergeSchemas_basic(4)[OF mg this] show ?thesis .
  next
    case (ZodArray e)
    with Some assms(2) have w: "with_child rec h (p @ ''[]'') e = Inr (h', m)"
      by (simp add: dispatch_def)
    then obtain h1 sub where r: "rec h e (p @ ''[]'') = Inr (h1, sub)"
      and mg: "mergeSchemas h1 [JSRecord [(p @ ''[]'', e)] None, sub] = Inr (h', m)"
      by (auto simp: with_child_def split: sum.splits)
    from returns_tidyD[OF assms(1) r] array_key_proto[of p]
    have "\<forall>x \<in> set [JSRecord [(p @ ''[]'', e)] None, sub]. ''__proto__'' \<notin> own_keys x"
      by (simp add: tidy_def own_keys_def)
    from mergeSchemas_basic(4)[OF mg this] show ?thesis .
  next
    case (ZodTuple elements)
    with Some assms(2) obtain h1 flats where
      mh: "map_heap (\<lambda>h' (index, element). with_child rec h' (tuple_key p index) element) h
             (enumerate 0 elements) = Inr (h1, flats)"
      and mg: "mergeSchemas h1 flats = Inr (h', m)"
      by (auto simp: dispatch_def split: sum.splits)
    have "\<forall>y \<in> set flats. tidy (own y)"
      by (rule map_heap_tidy[OF mh]) (auto dest: with_child_tidy)
    then have "\<forall>x \<in> set flats. ''__proto__'' \<notin> own_keys x" by (simp add: tidy_def own_keys_def)
    from mergeSchemas_basic(4)[OF mg this] show ?thesis .
  next
    case (ZodUnion options)
    with Some assms(2) obtain h1 flats where
      mh: "map_heap (\<lambda>h' option. rec h' option p) h options = Inr (h1, flats)"
      and mg: "mergeSchemas h1 flats = Inr (h', m)"
      by (auto simp: dispatch_def split: sum.splits)
    have "\<forall>y \<in> set flats. tidy (own y)"
      by (rule map_heap_tidy[OF mh]) (rule returns_tidyD[OF assms(1)])
    then have "\<forall>x \<in> set flats. ''__proto__'' \<notin> own_keys x" by (simp add: tidy_def own_keys_def)
    from mergeSchemas_basic(4)[OF mg this] show ?thesis .
  qed (use Some assms(2) in \<open>auto simp: dispatch_def\<close>)
qed

lemma flattenSchema_plain:
  assumes "dispatch (flattenSchema n) h u p = Inr (h', m)"
    and "unwrapSchema n h s = Inr u"
    and "own_keys m \<inter> set object_prototype_keys = {}"
  shows "flattenSchema (Suc n) h s p = Inr (h', m)"
proof -
  from dispatch_proto[OF flattenSchema_returns_tidy assms(1)] have "proto m = None" .
  with mergeSchemas_single[OF dispatch_tidy[OF assms(1)] assms(3), of h']
  have "mergeSchemas h' [m] = Inr (h', m)" by (simp add: jsrecord_eq)
  with assms(1,2) show ?thesis
    by (simp add: flattenSchema_dispatch del: flattenSchema.simps)
qed

lemma flattenSchema_plain_dispatch:
  assumes run: "flattenSchema (Suc n) h s p = Inr (h', m)"
    and plain: "own_keys m \<inter> set object_prototype_keys = {}"
  shows "\<exists>u. unwrapSchema n h s = Inr u \<and> dispatch (flattenSchema n) h u p = Inr (h', m)"
proof -
  from run obtain u h1 m1 where u: "unwrapSchema n h s = Inr u"
    and d: "dispatch (flattenSchema n) h u p = Inr (h1, m1)"
    and mg: "mergeSchemas h1 [m1] = Inr (h', m)"
    by (auto simp: flattenSchema_dispatch split: sum.splits simp del: flattenSchema.simps)
  from dispatch_tidy[OF d] have "''__proto__'' \<notin> own_keys m1" by (simp add: tidy_def own_keys_def)
  with mergeSchemas_basic(3)[OF mg] have "own_keys m = own_keys m1" by auto
  with plain have p1: "own_keys m1 \<inter> set object_prototype_keys = {}" by simp
  from flattenSchema_plain[OF d u p1] run have "h1 = h'" "m1 = m" by simp_all
  with u d show ?thesis by blast
qed

subsection \<open>Where a call that does not return stopped\<close>

text \<open>Keys with a dot or a bracket are merged into every accumulator.\<close>

lemma reduce_merge_punctuated:
  assumes "\<forall>k \<in> fst ` set xs. punctuated k"
  shows "\<exists>h' acc'. reduce merge_entry (h, acc) xs = Inr (h', acc')"
  using assms
proof (induction xs arbitrary: h acc)
  case Nil
  then show ?case by simp
next
  case (Cons x xs)
  obtain k v where x: "x = (k, v)" by (cases x)
  with Cons.prems have "punctuated k" by simp
  then obtain h1 acc1 where step: "merge_entry (h, acc) (k, v) = Inr (h1, acc1)"
    by (cases "merge_entry (h, acc) (k, v)") (auto simp: merge_entry_Inl_iff)
  from Cons.IH[of h1 acc1] Cons.prems obtain h' acc' where
    "reduce merge_entry (h1, acc1) xs = Inr (h', acc')" by auto
  with step show ?case by (simp add: x)
qed

text \<open>
  The merge of the entry of a child with the map of the child returns, also for a child
  named \<open>__proto__\<close>: the keys of the map are below the key of the entry.
\<close>

lemma with_child_fails:
  assumes wk: "well_keyed rec"
    and "with_child rec h k v = Inl e"
  shows "rec h v k = Inl e"
proof (cases "rec h v k")
  case (Inl e')
  with assms(2) show ?thesis by (simp add: with_child_def)
next
  case (Inr r)
  obtain h1 sub where r: "r = (h1, sub)" by (cases r)
  with Inr assms(2) have f: "mergeSchemas h1 [JSRecord [(k, v)] None, sub] = Inl e"
    by (simp add: with_child_def)
  from well_keyedD(1)[OF wk Inr[unfolded r]] have t: "''__proto__'' \<notin> own_keys sub"
    by (simp add: tidy_def own_keys_def)
  have "\<exists>h' out. mergeSchemas h1 [JSRecord [(k, v)] None, sub] = Inr (h', out)"
  proof (cases "k = ''__proto__''")
    case False
    with t show ?thesis by (intro mergeSchemas_returns) (simp add: own_keys_def)
  next
    case True
    then have "k \<noteq> []" by simp
    from well_keyedD(3)[OF wk Inr[unfolded r] this] have "\<forall>x \<in> fst ` set (own sub). punctuated x"
      by (auto simp: own_keys_def dest: below_punctuated)
    from reduce_merge_punctuated[OF this] True show ?thesis
      by (simp add: mergeSchemas_concat merge_entry_proto)
  qed
  with f show ?thesis by simp
qed

lemma dispatch_fails:
  assumes al: "only_allocates rec"
    and wk: "well_keyed rec"
    and d: "dispatch rec h u p = Inl e"
  shows "\<exists>z c h0 q. deref h u = Some z \<and> c \<in> set (children z) \<and> grows h h0 \<and> rec h0 c q = Inl e"
proof (cases "deref h u")
  case None
  with d show ?thesis by (simp add: dispatch_def)
next
  case (Some z)
  note tr = well_keyed_tidy[OF wk]
  show ?thesis
  proof (cases z)
    case (ZodObject shape)
    let ?f = "\<lambda>h' (key, value). with_child rec h' (object_key p key) value"
    have wt: "tidy (own y)" if "?f h0 x = Inr (h1, y)" for h0 x h1 y
      using that by (cases x) (auto dest: with_child_tidy)
    show ?thesis
    proof (cases "map_heap ?f h shape")
      case (Inl e')
      with d Some ZodObject have "map_heap ?f h shape = Inl e" by (simp add: dispatch_def)
      then obtain x h0 where x: "x \<in> set shape" "grows h h0" "?f h0 x = Inl e"
        by (rule map_heap_fails[rotated, THEN bexE]) (auto intro: with_child_grows[OF al])
      obtain name c where nc: "x = (name, c)" by (cases x)
      with x(3) have "with_child rec h0 (object_key p name) c = Inl e" by simp
      from with_child_fails[OF wk this] have "rec h0 c (object_key p name) = Inl e" .
      moreover from x(1) nc ZodObject have "c \<in> set (children z)" by (force simp: children_def)
      ultimately show ?thesis using Some x(2) by blast
    next
      case (Inr r)
      obtain h1 flats where r: "r = (h1, flats)" by (cases r)
      from map_heap_tidy[OF Inr[unfolded r] wt] have "\<forall>y \<in> set flats. tidy (own y)" by simp
      from mergeSchemas_tidy_returns[OF this, of h1] d Some ZodObject Inr r show ?thesis
        by (simp add: dispatch_def)
    qed
  next
    case (ZodArray c)
    with d Some have "with_child rec h (p @ ''[]'') c = Inl e" by (simp add: dispatch_def)
    from with_child_fails[OF wk this] have "rec h c (p @ ''[]'') = Inl e" .
    moreover from ZodArray have "c \<in> set (children z)" by (simp add: children_def)
    ultimately show ?thesis using Some grows_refl by blast
  next
    case (ZodTuple elements)
    let ?f = "\<lambda>h' (index, element). with_child rec h' (tuple_key p index) element"
    have wt: "tidy (own y)" if "?f h0 x = Inr (h1, y)" for h0 x h1 y
      using that by (cases x) (auto dest: with_child_tidy)
    show ?thesis
    proof (cases "map_heap ?f h (enumerate 0 elements)")
      case (Inl e')
      with d Some ZodTuple have "map_heap ?f h (enumerate 0 elements) = Inl e"
        by (simp add: dispatch_def)
      then obtain x h0 where x: "x \<in> set (enumerate 0 elements)" "grows h h0" "?f h0 x = Inl e"
        by (rule map_heap_fails[rotated, THEN bexE]) (auto intro: with_child_grows[OF al])
      obtain i c where nc: "x = (i, c)" by (cases x)
      with x(3) have "with_child rec h0 (tuple_key p i) c = Inl e" by simp
      from with_child_fails[OF wk this] have "rec h0 c (tuple_key p i) = Inl e" .
      moreover from x(1) nc ZodTuple have "c \<in> set (children z)"
        by (auto simp: children_def dest: enumerate_member)
      ultimately show ?thesis using Some x(2) by blast
    next
      case (Inr r)
      obtain h1 flats where r: "r = (h1, flats)" by (cases r)
      from map_heap_tidy[OF Inr[unfolded r] wt] have "\<forall>y \<in> set flats. tidy (own y)" by simp
      from mergeSchemas_tidy_returns[OF this, of h1] d Some ZodTuple Inr r show ?thesis
        by (simp add: dispatch_def)
    qed
  next
    case (ZodUnion options)
    let ?f = "\<lambda>h' option. rec h' option p"
    show ?thesis
    proof (cases "map_heap ?f h options")
      case (Inl e')
      with d Some ZodUnion have "map_heap ?f h options = Inl e" by (simp add: dispatch_def)
      then obtain c h0 where x: "c \<in> set options" "grows h h0" "rec h0 c p = Inl e"
        by (rule map_heap_fails[rotated, THEN bexE]) (auto intro: only_allocatesD[OF al])
      with ZodUnion Some show ?thesis by (auto simp: children_def)
    next
      case (Inr r)
      obtain h1 flats where r: "r = (h1, flats)" by (cases r)
      have "\<forall>y \<in> set flats. tidy (own y)"
        by (rule map_heap_tidy[OF Inr[unfolded r]]) (rule returns_tidyD[OF tr])
      from mergeSchemas_tidy_returns[OF this, of h1] d Some ZodUnion Inr r show ?thesis
        by (simp add: dispatch_def)
    qed
  qed (use Some d in \<open>simp_all add: dispatch_def\<close>)
qed

text \<open>
  \<open>flattenSchema\<close> stops with a stack overflow of \<open>unwrapSchema\<close>, or with a call of
  itself on a child that stopped.
\<close>

lemma flattenSchema_fails:
  assumes "flattenSchema (Suc n) h s p = Inl e"
  shows "unwrapSchema n h s = Inl StackOverflow \<and> e = StackOverflow \<or>
         (\<exists>u z c h0 q. unwrapSchema n h s = Inr u \<and> deref h u = Some z \<and>
            c \<in> set (children z) \<and> grows h h0 \<and> flattenSchema n h0 c q = Inl e)"
proof (cases "unwrapSchema n h s")
  case (Inl e')
  with unwrapSchema_fails[OF Inl] assms show ?thesis
    by (simp add: flattenSchema_dispatch del: flattenSchema.simps)
next
  case (Inr u)
  show ?thesis
  proof (cases "dispatch (flattenSchema n) h u p")
    case (Inl e')
    with Inr assms have d: "dispatch (flattenSchema n) h u p = Inl e"
      by (simp add: flattenSchema_dispatch del: flattenSchema.simps)
    from dispatch_fails[OF flattenSchema_only_allocates flattenSchema_well_keyed d] Inr
    show ?thesis by blast
  next
    case (Inr r)
    obtain h1 m where r: "r = (h1, m)" by (cases r)
    from dispatch_tidy[OF Inr[unfolded r]] have "\<forall>x \<in> set [m]. tidy (own x)" by simp
    from mergeSchemas_tidy_returns[OF this, of h1] assms \<open>unwrapSchema n h s = Inr u\<close> Inr r
    show ?thesis by (simp add: flattenSchema_dispatch del: flattenSchema.simps)
  qed
qed

text \<open>No step of \<open>flattenSchema\<close> is decided by Zod: the only failure is the stack overflow.\<close>

lemma flattenSchema_decided: "flattenSchema n h s p = Inl e \<Longrightarrow> e = StackOverflow"
proof (induction n arbitrary: h s p)
  case 0
  then show ?case by simp
next
  case (Suc n)
  from flattenSchema_fails[OF Suc.prems] Suc.IH show ?case by blast
qed

subsection \<open>Termination on acyclic heaps\<close>

lemma acyclic_byD:
  assumes "acyclic_by h rank" "deref h r = Some z" "c \<in> set (children z)"
  shows "allocated h c" "rank c < rank r"
proof -
  from assms(2) obtain a where a: "r = Addr a" "a < length h" "h ! a = z"
    by (auto simp: deref_def split: ref.splits if_splits)
  then have "(a, z) \<in> set (enumerate 0 h)" by (auto simp: in_set_enumerate_eq)
  with assms(1,3) a show "allocated h c" "rank c < rank r"
    unfolding acyclic_by_def by blast+
qed

lemma unwrapSchema_acyclic:
  assumes "acyclic_by h rank" "extends h h'"
  shows "allocated h s \<Longrightarrow> rank s < n \<Longrightarrow>
         \<exists>u. unwrapSchema n h' s = Inr u \<and> allocated h u \<and> rank u \<le> rank s"
proof (induction n arbitrary: s)
  case 0
  then show ?case by simp
next
  case (Suc n)
  from Suc.prems(1) obtain z where d: "deref h s = Some z" by (auto dest: allocated_deref)
  with assms(2) have d': "deref h' s = Some z" by (rule deref_extends)
  have inner: "\<exists>u. unwrapSchema n h' i = Inr u \<and> allocated h u \<and> rank u \<le> rank s"
    if "i \<in> set (children z)" for i
  proof -
    from acyclic_byD[OF assms(1) d that] have i: "allocated h i" "rank i < rank s" .
    with Suc.prems(2) have "rank i < n" by simp
    from Suc.IH[OF i(1) this] i(2) show ?thesis by force
  qed
  show ?case
    using d' inner Suc.prems(1) by (cases z) (auto simp: children_def)
qed

lemma flattenSchema_acyclic:
  assumes "acyclic_by h rank"
  shows "grows h h' \<Longrightarrow> allocated h s \<Longrightarrow> rank s + 2 \<le> n \<Longrightarrow>
         flattenSchema n h' s p \<noteq> Inl StackOverflow"
proof (induction n arbitrary: h' s p)
  case 0
  then show ?case by simp
next
  case (Suc n)
  from Suc.prems have "rank s < n" by simp
  from unwrapSchema_acyclic[OF assms grows_extends[OF Suc.prems(1)] Suc.prems(2) this] obtain u where
    u: "unwrapSchema n h' s = Inr u" "allocated h u" "rank u \<le> rank s" by blast
  from u(2) obtain z where z: "deref h u = Some z" by (auto dest: allocated_deref)
  with Suc.prems(1) have z': "deref h' u = Some z" by (rule deref_grows)
  show ?case
  proof
    assume "flattenSchema (Suc n) h' s p = Inl StackOverflow"
    from flattenSchema_fails[OF this] u(1) z' obtain c h0 q where
      c: "c \<in> set (children z)" "grows h' h0" "flattenSchema n h0 c q = Inl StackOverflow"
      by auto
    from acyclic_byD[OF assms z c(1)] have "allocated h c" "rank c < rank u" .
    moreover from c(2) Suc.prems(1) have "grows h h0" by (auto intro: grows_trans)
    moreover from \<open>rank c < rank u\<close> u(3) Suc.prems(3) have "rank c + 2 \<le> n" by simp
    ultimately have "flattenSchema n h0 c q \<noteq> Inl StackOverflow" by (intro Suc.IH)
    with c(3) show False by simp
  qed
qed

lemma flatten_acyclic_returns:
  assumes "acyclic_by h rank"
  shows "\<exists>h' fl. flatten (rank schema + 2 + k) h schema = Inr (h', fl)"
proof (cases "flatten (rank schema + 2 + k) h schema")
  case (Inr r)
  then show ?thesis by (cases r) auto
next
  case (Inl e)
  then have e: "flattenSchema (rank schema + 2 + k) h schema [] = Inl StackOverflow"
    using flattenSchema_decided[of "rank schema + 2 + k" h schema "[]" e] by (simp add: flatten_def)
  show ?thesis
  proof (cases "allocated h schema")
    case True
    with flattenSchema_acyclic[OF assms grows_refl, of schema "rank schema + 2 + k" "[]"] e
    show ?thesis by simp
  next
    case False
    then have "deref h schema = None" by (rule deref_not_allocated)
    then have "flattenSchema (Suc (Suc (rank schema + k))) h schema [] = Inr (h, JSRecord [] None)"
      by (simp add: flattenSchema_dispatch dispatch_def mergeSchemas_empty del: flattenSchema.simps)
    with e show ?thesis by simp
  qed
qed

subsection \<open>No termination on a cycle\<close>

lemma cyclic_child:
  assumes "cyclic_from h s"
  shows "\<exists>c. child h s c \<and> cyclic_from h c"
proof -
  from assms obtain t where st: "(child h)\<^sup>*\<^sup>* s t" and tt: "(child h)\<^sup>+\<^sup>+ t t"
    by (auto simp: cyclic_from_def)
  from st show ?thesis
  proof (cases rule: converse_rtranclpE)
    case base
    from tt obtain c where "child h t c" "(child h)\<^sup>*\<^sup>* c t" by (auto dest: tranclpD)
    with tt base show ?thesis by (auto simp: cyclic_from_def)
  next
    case (step c)
    with tt show ?thesis by (auto simp: cyclic_from_def)
  qed
qed

lemma child_only:
  assumes "child h s c" "deref h s = Some z" "children z = [i]"
  shows "c = i"
  using assms by (auto simp: child_def)

lemma unwrapSchema_cyclic:
  assumes g: "grows h h'"
  shows "cyclic_from h s \<Longrightarrow> unwrapSchema n h' s = Inr u \<Longrightarrow>
         cyclic_from h u \<and> (\<exists>z. deref h u = Some z \<and> unwrapSchema (Suc 0) h u = Inr u)"
proof (induction n arbitrary: s)
  case 0
  then show ?case by simp
next
  case (Suc n)
  from cyclic_child[OF Suc.prems(1)] obtain c where c: "child h s c" "cyclic_from h c" by blast
  then obtain z where z: "deref h s = Some z" by (auto simp: child_def)
  with g have z': "deref h' s = Some z" by (rule deref_grows)
  have wrapped: "cyclic_from h u \<and> (\<exists>z. deref h u = Some z \<and> unwrapSchema (Suc 0) h u = Inr u)"
    if "children z = [i]" "unwrapSchema n h' i = Inr u" for i
  proof -
    from child_only[OF c(1) z that(1)] c(2) have "cyclic_from h i" by simp
    from Suc.IH[OF this that(2)] show ?thesis .
  qed
  from Suc.prems(2) z' z Suc.prems(1) wrapped show ?case
    by (cases z) (auto simp: children_def)
qed

lemma map_heap_child_fails:
  assumes gr: "\<And>h0 y h1 r. f h0 y = Inr (h1, r) \<Longrightarrow> grows h0 h1"
    and x: "x \<in> set xs"
    and fails: "\<And>h0. grows h h0 \<Longrightarrow> \<exists>e. f h0 x = Inl e"
  shows "\<exists>e. map_heap f h xs = Inl e"
  using x fails
proof (induction xs arbitrary: h)
  case Nil
  then show ?case by simp
next
  case (Cons y ys)
  show ?case
  proof (cases "f h y")
    case (Inl e)
    then show ?thesis by simp
  next
    case (Inr r)
    obtain h1 m where r: "r = (h1, m)" by (cases r)
    from gr[OF Inr[unfolded r]] have g1: "grows h h1" .
    from Cons.prems(2)[OF grows_refl] Inr have "x \<noteq> y" by auto
    with Cons.prems(1) have "x \<in> set ys" by simp
    moreover have "\<exists>e. f h0 x = Inl e" if "grows h1 h0" for h0
      using Cons.prems(2)[OF grows_trans[OF g1 that]] .
    ultimately obtain e where "map_heap f h1 ys = Inl e" using Cons.IH by blast
    with Inr r show ?thesis by simp
  qed
qed

lemma with_child_child_fails: "rec h c k = Inl e \<Longrightarrow> with_child rec h k c = Inl e"
  by (simp add: with_child_def)

lemma dispatch_child_fails:
  assumes al: "only_allocates rec"
    and d: "deref h u = Some z" and c: "c \<in> set (children z)"
    and kind: "unwrapSchema (Suc 0) h u = Inr u"
    and fails: "\<And>h0 q. grows h h0 \<Longrightarrow> \<exists>e. rec h0 c q = Inl e"
  shows "\<exists>e. dispatch rec h u p = Inl e"
proof (cases z)
  case (ZodObject shape)
  from c ZodObject obtain name where x: "(name, c) \<in> set shape" by (auto simp: children_def)
  have "\<exists>e. map_heap (\<lambda>h' (key, value). with_child rec h' (object_key p key) value) h shape = Inl e"
  proof (rule map_heap_child_fails[OF _ x])
    fix h0 assume "grows h h0"
    from fails[OF this, of "object_key p name"]
    show "\<exists>e. (case (name, c) of (key, value) \<Rightarrow> with_child rec h0 (object_key p key) value) = Inl e"
      by (auto dest: with_child_child_fails)
  qed (auto intro: with_child_grows[OF al])
  with d ZodObject show ?thesis by (auto simp: dispatch_def)
next
  case (ZodArray e)
  with c have "c = e" by (simp add: children_def)
  with fails[OF grows_refl, of "p @ ''[]''"] d ZodArray show ?thesis
    by (auto simp: dispatch_def dest: with_child_child_fails)
next
  case (ZodTuple elements)
  from c ZodTuple obtain i where "i < length elements" "elements ! i = c"
    by (auto simp: children_def in_set_conv_nth)
  then have x: "(i, c) \<in> set (enumerate 0 elements)"
    by (simp add: in_set_enumerate_eq)
  have "\<exists>e. map_heap (\<lambda>h' (index, element). with_child rec h' (tuple_key p index) element) h
          (enumerate 0 elements) = Inl e"
  proof (rule map_heap_child_fails[OF _ x])
    fix h0 assume "grows h h0"
    from fails[OF this, of "tuple_key p i"]
    show "\<exists>e. (case (i, c) of (index, element) \<Rightarrow> with_child rec h0 (tuple_key p index) element) = Inl e"
      by (auto dest: with_child_child_fails)
  qed (auto intro: with_child_grows[OF al])
  with d ZodTuple show ?thesis by (auto simp: dispatch_def)
next
  case (ZodUnion options)
  from c ZodUnion have x: "c \<in> set options" by (simp add: children_def)
  have "\<exists>e. map_heap (\<lambda>h' option. rec h' option p) h options = Inl e"
    by (rule map_heap_child_fails[OF _ x]) (auto intro: only_allocatesD[OF al] fails)
  with d ZodUnion show ?thesis by (auto simp: dispatch_def)
qed (use d c kind in \<open>auto simp: children_def\<close>)

lemma flattenSchema_cyclic:
  "cyclic_from h s \<Longrightarrow> grows h h' \<Longrightarrow> \<exists>e. flattenSchema n h' s p = Inl e"
proof (induction n arbitrary: h' s p)
  case 0
  then show ?case by simp
next
  case (Suc n)
  show ?case
  proof (cases "unwrapSchema n h' s")
    case (Inl e)
    then show ?thesis by (simp add: flattenSchema_dispatch del: flattenSchema.simps)
  next
    case (Inr u)
    from unwrapSchema_cyclic[OF Suc.prems(2,1) Inr] obtain z where
      u: "cyclic_from h u" "deref h u = Some z" "unwrapSchema (Suc 0) h u = Inr u" by blast
    from cyclic_child[OF u(1)] u(2) obtain c where c: "c \<in> set (children z)" "cyclic_from h c"
      by (auto simp: child_def)
    from Suc.prems(2) u(2) have z': "deref h' u = Some z" by (rule deref_grows)
    with u(3) u(2) have kind: "unwrapSchema (Suc 0) h' u = Inr u"
      by (cases z) auto
    have "\<exists>e. dispatch (flattenSchema n) h' u p = Inl e"
    proof (rule dispatch_child_fails[OF flattenSchema_only_allocates z' c(1) kind])
      fix h0 q assume "grows h' h0"
      with Suc.prems(2) have "grows h h0" by (rule grows_trans)
      from Suc.IH[OF c(2) this] show "\<exists>e. flattenSchema n h0 c q = Inl e" .
    qed
    with Inr show ?thesis by (auto simp: flattenSchema_dispatch simp del: flattenSchema.simps)
  qed
qed

lemma flatten_cyclic:
  assumes "cyclic_from h schema"
  shows "flatten n h schema = Inl StackOverflow"
proof -
  from flattenSchema_cyclic[OF assms grows_refl, of n "[]"]
  obtain e where e: "flattenSchema n h schema [] = Inl e" by auto
  from flattenSchema_decided[OF this] e show ?thesis by (simp add: flatten_def)
qed

lemma acyclic_not_cyclic:
  assumes "acyclic_by h rank"
  shows "\<not> cyclic_from h s"
proof
  assume "cyclic_from h s"
  then obtain t where tt: "(child h)\<^sup>+\<^sup>+ t t" by (auto simp: cyclic_from_def)
  have "rank b < rank a" if "(child h)\<^sup>+\<^sup>+ a b" for a b
    using that
  proof (induction rule: tranclp_induct)
    case (base y)
    then show ?case by (auto simp: child_def dest: acyclic_byD(2)[OF assms])
  next
    case (step y z)
    from step(2) have "rank z < rank y" by (auto simp: child_def dest: acyclic_byD(2)[OF assms])
    with step(3) show ?case by simp
  qed
  from this[OF tt] show False by simp
qed

subsection \<open>Merging maps whose keys cannot meet\<close>

lemma assign_all_Nil [simp]: "assign_all [] props = props"
  by (simp add: assign_all_def)

lemma assign_all_Cons [simp]: "assign_all (e # xs) props = assign_all xs (assign props (fst e) (snd e))"
  by (simp add: assign_all_def)

lemma keys_assign_all [simp]: "fst ` set (assign_all xs props) = fst ` set props \<union> fst ` set xs"
  by (induction xs arbitrary: props) auto

lemma distinct_assign_all:
  "distinct (map fst props) \<Longrightarrow> distinct (map fst (assign_all xs props))"
  by (induction xs arbitrary: props) (auto intro: distinct_assign)

lemma set_assign_all:
  assumes "distinct (map fst xs)" "fst ` set xs \<inter> fst ` set props = {}"
  shows "set (assign_all xs props) = set props \<union> set xs"
  using assms
proof (induction xs arbitrary: props)
  case Nil
  then show ?case by simp
next
  case (Cons e xs)
  obtain k v where e: "e = (k, v)" by (cases e)
  from Cons.prems e have k: "k \<notin> fst ` set props" by auto
  from Cons.prems e have "fst ` set xs \<inter> fst ` set (assign props k v) = {}" by auto
  with Cons.IH[of "assign props k v"] Cons.prems(1) set_assign_absent[OF k, of v] show ?case
    by (auto simp: e)
qed

lemma assign_all_plain:
  assumes "distinct (map fst xs)" "fst ` set xs \<inter> fst ` set props = {}"
    "\<forall>x \<in> set xs. array_index (fst x) = None"
  shows "assign_all xs props = props @ xs"
  using assms
proof (induction xs arbitrary: props)
  case Nil
  then show ?case by simp
next
  case (Cons e xs)
  obtain k v where e: "e = (k, v)" by (cases e)
  from Cons.prems e have k: "k \<notin> fst ` set props" "array_index k = None" by auto
  then have a: "assign props k v = props @ [(k, v)]" by (rule assign_plain)
  from Cons.prems e have "assign_all xs (props @ [(k, v)]) = (props @ [(k, v)]) @ xs"
    by (intro Cons.IH) auto
  with a show ?case by (simp add: e)
qed

text \<open>Folding a map with distinct keys into an accumulator that has none of them.\<close>

lemma reduce_merge_disjoint:
  assumes "distinct (map fst xs)" "fst ` set xs \<inter> fst ` set props = {}"
    "fst ` set xs \<inter> set object_prototype_keys = {}"
  shows "reduce merge_entry (h, JSRecord props None) xs = Inr (h, JSRecord (assign_all xs props) None)"
  using assms
proof (induction xs arbitrary: props)
  case Nil
  then show ?case by simp
next
  case (Cons x xs)
  obtain k v where x: "x = (k, v)" by (cases x)
  from Cons.prems x have "k \<notin> fst ` set props" "k \<notin> set object_prototype_keys" by auto
  then have "merge_entry (h, JSRecord props None) (k, v) = Inr (h, JSRecord (assign props k v) None)"
    using merge_entry_fresh[of "JSRecord props None" k h v] by (simp add: map_of_eq_None_iff)
  moreover from Cons.prems x
  have "reduce merge_entry (h, JSRecord (assign props k v) None) xs =
          Inr (h, JSRecord (assign_all xs (assign props k v)) None)"
    by (intro Cons.IH) auto
  ultimately show ?case by (simp add: x)
qed

lemma distinct_concat_keys:
  assumes "list_all2 (\<lambda>x ys. distinct (map fst ys) \<and> (\<forall>k \<in> fst ` set ys. g k = x)) xs yss"
    and "distinct xs"
  shows "distinct (map fst (concat yss))"
  using assms
proof (induction rule: list_all2_induct)
  case Nil
  then show ?case by simp
next
  case (Cons x xs ys yss)
  have "fst ` set ys \<inter> fst ` set (concat yss) = {}"
  proof (rule ccontr)
    assume "fst ` set ys \<inter> fst ` set (concat yss) \<noteq> {}"
    then obtain k zs where k: "k \<in> fst ` set ys" "zs \<in> set yss" "k \<in> fst ` set zs" by auto
    from Cons.hyps(2) k(2) obtain x' where
      "x' \<in> set xs" "distinct (map fst zs) \<and> (\<forall>k \<in> fst ` set zs. g k = x')"
      by (rule list_all2_member)
    with k(3) have "g k = x'" by blast
    moreover from Cons.hyps(1) k(1) have "g k = x" by blast
    ultimately have "x' = x" by simp
    with \<open>x' \<in> set xs\<close> Cons.prems show False by simp
  qed
  with Cons show ?case by simp
qed

lemma map_heap_all2:
  assumes "map_heap f h xs = Inr (h', ys)"
    and "\<And>h0 x h1 y. f h0 x = Inr (h1, y) \<Longrightarrow> grows h0 h1"
  shows "list_all2 (\<lambda>x y. \<exists>h0 h1. grows h h0 \<and> f h0 x = Inr (h1, y) \<and> grows h1 h') xs ys"
  using assms(1)
proof (induction xs arbitrary: h ys)
  case Nil
  then show ?case by simp
next
  case (Cons x xs)
  from Cons.prems obtain h1 y zs where
    fx: "f h x = Inr (h1, y)" and rest: "map_heap f h1 xs = Inr (h', zs)" and ys: "ys = y # zs"
    by (auto split: sum.splits prod.splits)
  from assms(2)[OF fx] have g1: "grows h h1" .
  from map_heap_grows[OF assms(2) rest] have g2: "grows h1 h'" by simp
  from Cons.IH[OF rest]
  have "list_all2 (\<lambda>x y. \<exists>h0 h2. grows h1 h0 \<and> f h0 x = Inr (h2, y) \<and> grows h2 h') xs zs" .
  then have "list_all2 (\<lambda>x y. \<exists>h0 h2. grows h h0 \<and> f h0 x = Inr (h2, y) \<and> grows h2 h') xs zs"
    by (rule list_all2_mono) (use g1 in \<open>blast intro: grows_trans\<close>)
  moreover have "\<exists>h0 h2. grows h h0 \<and> f h0 x = Inr (h2, y) \<and> grows h2 h'"
    using fx g2 grows_refl by blast
  ultimately show ?case by (simp add: ys)
qed

text \<open>
  The children of a composite schema, each flattened below its own path, then merged:
  when the paths of the children cannot meet (each key shows by its tag g under which
  child it lies), the merged map holds the entries of the children and nothing else, in
  the order of \<open>Object.entries\<close>.
\<close>

lemma children_merge:
  fixes K :: "'a \<Rightarrow> string" and c :: "'a \<Rightarrow> ref" and g :: "string \<Rightarrow> 'b" and t :: "'a \<Rightarrow> 'b"
  assumes wk: "well_keyed rec" and al: "only_allocates rec"
    and mh: "map_heap (\<lambda>h' x. with_child rec h' (K x) (c x)) h xs = Inr (h1, flats)"
    and mg: "mergeSchemas h1 flats = Inr (h', m)"
    and ne: "\<And>x. x \<in> set xs \<Longrightarrow> K x \<noteq> []"
    and np: "\<And>x. x \<in> set xs \<Longrightarrow> K x \<notin> set object_prototype_keys"
    and tagK: "\<And>x. x \<in> set xs \<Longrightarrow> g (K x) = t x"
    and tagB: "\<And>x k. x \<in> set xs \<Longrightarrow> below (K x) k \<Longrightarrow> g k = t x"
    and dist: "distinct (map t xs)"
  shows "\<exists>subs. length subs = length xs \<and>
          m = JSRecord (assign_all (concat (map2 (\<lambda>x sub. (K x, c x) # own sub) xs subs)) []) None \<and>
          distinct (map fst (concat (map2 (\<lambda>x sub. (K x, c x) # own sub) xs subs))) \<and>
          fst ` set (concat (map2 (\<lambda>x sub. (K x, c x) # own sub) xs subs)) \<inter>
            set object_prototype_keys = {} \<and>
          list_all2 (\<lambda>x sub.
              (\<exists>h0 h2. grows h h0 \<and> rec h0 (c x) (K x) = Inr (h2, sub) \<and> grows h2 h') \<and>
              (\<forall>k \<in> own_keys sub. below (K x) k)) xs subs"
proof -
  let ?F = "\<lambda>h' x. with_child rec h' (K x) (c x)"
  have Fg: "grows h0 h2" if "?F h0 x = Inr (h2, y)" for h0 x h2 y
    using that by (rule with_child_grows[OF al])
  from map_heap_all2[OF mh Fg]
  have all: "list_all2 (\<lambda>x y. \<exists>h0 h2. grows h h0 \<and> ?F h0 x = Inr (h2, y) \<and> grows h2 h1) xs flats"
    by simp
  have each: "\<exists>sub. y = JSRecord ((K x, c x) # own sub) None \<and>
       (\<exists>h0 h2. grows h h0 \<and> rec h0 (c x) (K x) = Inr (h2, sub) \<and> grows h2 h1) \<and>
       (\<forall>k \<in> own_keys sub. below (K x) k) \<and> distinct (map fst (own sub))"
    if x: "x \<in> set xs" and y: "\<exists>h0 h2. grows h h0 \<and> ?F h0 x = Inr (h2, y) \<and> grows h2 h1" for x y
  proof -
    from y obtain h0 h2 where
      g: "grows h h0" "grows h2 h1" and w: "with_child rec h0 (K x) (c x) = Inr (h2, y)"
      by auto
    from with_child_Cons[OF wk ne[OF x] np[OF x] w] obtain sub where
      sub: "rec h0 (c x) (K x) = Inr (h2, sub)" "y = JSRecord ((K x, c x) # own sub) None"
        "\<forall>k \<in> own_keys sub. below (K x) k"
      by blast
    from well_keyedD(1)[OF wk sub(1)] have "distinct (map fst (own sub))" by (simp add: tidy_def)
    with sub g show ?thesis by blast
  qed
  from all have len: "length flats = length xs" by (simp add: list_all2_lengthD)
  have nth: "\<exists>sub. flats ! i = JSRecord ((K (xs ! i), c (xs ! i)) # own sub) None \<and>
       (\<exists>h0 h2. grows h h0 \<and> rec h0 (c (xs ! i)) (K (xs ! i)) = Inr (h2, sub) \<and> grows h2 h1) \<and>
       (\<forall>k \<in> own_keys sub. below (K (xs ! i)) k) \<and> distinct (map fst (own sub))"
    if "i < length xs" for i
    using that all each[of "xs ! i" "flats ! i"] by (simp add: list_all2_conv_all_nth)
  define pick where "pick i = (SOME sub. flats ! i = JSRecord ((K (xs ! i), c (xs ! i)) # own sub) None \<and>
       (\<exists>h0 h2. grows h h0 \<and> rec h0 (c (xs ! i)) (K (xs ! i)) = Inr (h2, sub) \<and> grows h2 h1) \<and>
       (\<forall>k \<in> own_keys sub. below (K (xs ! i)) k) \<and> distinct (map fst (own sub)))" for i
  have pick: "flats ! i = JSRecord ((K (xs ! i), c (xs ! i)) # own (pick i)) None \<and>
       (\<exists>h0 h2. grows h h0 \<and> rec h0 (c (xs ! i)) (K (xs ! i)) = Inr (h2, pick i) \<and> grows h2 h1) \<and>
       (\<forall>k \<in> own_keys (pick i). below (K (xs ! i)) k) \<and> distinct (map fst (own (pick i)))"
    if "i < length xs" for i
    unfolding pick_def by (rule someI_ex) (rule nth[OF that])
  define subs where "subs = map pick [0..<length xs]"
  have slen: "length subs = length xs" by (simp add: subs_def)
  have snth: "subs ! i = pick i" if "i < length xs" for i
    using that by (simp add: subs_def)
  let ?segs = "map2 (\<lambda>x sub. (K x, c x) # own sub) xs subs"
  have flats: "map own flats = ?segs"
  proof (rule nth_equalityI)
    show "length (map own flats) = length ?segs" by (simp add: slen len)
    fix i assume "i < length (map own flats)"
    then have i: "i < length xs" by (simp add: len)
    with pick[OF i] len slen show "map own flats ! i = ?segs ! i"
      by (simp add: snth)
  qed
  have keys: "list_all2 (\<lambda>x ys. distinct (map fst ys) \<and> (\<forall>k \<in> fst ` set ys. g k = x))
                (map t xs) ?segs"
    unfolding list_all2_conv_all_nth
  proof (intro conjI allI impI)
    show "length (map t xs) = length ?segs" by (simp add: slen)
    fix i assume "i < length (map t xs)"
    then have i: "i < length xs" by simp
    then have x: "xs ! i \<in> set xs" by simp
    from pick[OF i] have
      sub: "\<forall>k \<in> own_keys (pick i). below (K (xs ! i)) k" "distinct (map fst (own (pick i)))"
      by auto
    have "K (xs ! i) \<notin> fst ` set (own (pick i))"
    proof
      assume "K (xs ! i) \<in> fst ` set (own (pick i))"
      then have "K (xs ! i) \<in> own_keys (pick i)" by (simp add: own_keys_def)
      with sub(1) have "below (K (xs ! i)) (K (xs ! i))" by blast
      then show False by (simp add: below_def)
    qed
    with sub i slen show "distinct (map fst (?segs ! i))" by (simp add: snth)
    show "\<forall>k \<in> fst ` set (?segs ! i). g k = map t xs ! i"
      using sub(1) i slen tagK[OF x] tagB[OF x] by (auto simp: snth own_keys_def)
  qed
  from distinct_concat_keys[OF keys dist] have dm: "distinct (map fst (concat ?segs))" .
  have plain: "fst ` set (concat ?segs) \<inter> set object_prototype_keys = {}"
  proof -
    have "k \<notin> set object_prototype_keys" if "k \<in> fst ` set (concat ?segs)" for k
    proof -
      from that have "k \<in> (\<Union>seg \<in> set ?segs. fst ` set seg)" by (simp only: set_concat image_UN)
      then obtain seg where "seg \<in> set ?segs" "k \<in> fst ` set seg" by blast
      then obtain i where i: "i < length xs" "seg = ?segs ! i"
        by (auto simp: in_set_conv_nth slen)
      with slen have seg: "seg = (K (xs ! i), c (xs ! i)) # own (pick i)" by (simp add: snth)
      from i have x: "xs ! i \<in> set xs" by simp
      from pick[OF i(1)] have "\<forall>k \<in> own_keys (pick i). below (K (xs ! i)) k" by auto
      with \<open>k \<in> fst ` set seg\<close> seg np[OF x] show ?thesis
        by (auto simp: own_keys_def dest: below_plain(1))
    qed
    then show ?thesis by (simp only: disjoint_iff) blast
  qed
  from reduce_merge_disjoint[OF dm _ plain, of "[]" h1] mg flats
  have res: "h' = h1" "m = JSRecord (assign_all (concat ?segs) []) None"
    by (simp_all add: mergeSchemas_concat)
  have "list_all2 (\<lambda>x sub.
              (\<exists>h0 h2. grows h h0 \<and> rec h0 (c x) (K x) = Inr (h2, sub) \<and> grows h2 h') \<and>
              (\<forall>k \<in> own_keys sub. below (K x) k)) xs subs"
  proof (rule list_all2_all_nthI)
    show "length xs = length subs" by (simp add: slen)
    fix i assume i: "i < length xs"
    from pick[OF i] res(1) snth[OF i]
    show "(\<exists>h0 h2. grows h h0 \<and> rec h0 (c (xs ! i)) (K (xs ! i)) = Inr (h2, subs ! i) \<and> grows h2 h') \<and>
          (\<forall>k \<in> own_keys (subs ! i). below (K (xs ! i)) k)"
      by auto
  qed
  with slen res dm plain show ?thesis by blast
qed


subsection \<open>The entries of objects and tuples\<close>

lemma object_key_split: "object_key p name = object_key p [] @ name"
  by (simp add: object_key_def)

lemma field_of_key:
  assumes "simple_name name"
  shows "field_of p (object_key p name) = name"
proof -
  have "takeWhile (\<lambda>c. c \<noteq> CHR ''.'' \<and> c \<noteq> CHR ''['') name = name"
    using assms by (auto simp: simple_name_def)
  then show ?thesis
    unfolding field_of_def by (subst object_key_split) simp
qed

lemma field_of_below:
  assumes "simple_name name" "below (object_key p name) k"
  shows "field_of p k = name"
proof -
  from assms(2) obtain c rest where
    k: "k = object_key p name @ c # rest" and c: "c = CHR ''.'' \<or> c = CHR ''[''"
    by (auto simp: below_iff)
  have "takeWhile (\<lambda>c. c \<noteq> CHR ''.'' \<and> c \<noteq> CHR ''['') (name @ c # rest) = name"
    using assms(1) c by (subst takeWhile_append2) (auto simp: simple_name_def)
  then show ?thesis
    unfolding field_of_def k by (subst object_key_split) simp
qed

lemma simple_name_key: "simple_name name \<Longrightarrow> object_key p name \<noteq> []"
  by (auto simp: simple_name_def object_key_def)

lemma digit_cases:
  "d < (10::nat) \<Longrightarrow>
   d = 0 \<or> d = 1 \<or> d = 2 \<or> d = 3 \<or> d = 4 \<or> d = 5 \<or> d = 6 \<or> d = 7 \<or> d = 8 \<or> d = 9"
  by arith

lemma digit_value_nth: "d < 10 \<Longrightarrow> digit_value (''0123456789'' ! d) = d"
  by (drule digit_cases) (auto simp: digit_value_def)

lemma digit_not_bracket: "d < 10 \<Longrightarrow> ''0123456789'' ! d \<noteq> CHR '']''"
  by (drule digit_cases) auto

lemma decimal_small: "n < 10 \<Longrightarrow> decimal n = [''0123456789'' ! n]"
  by (simp add: decimal.simps[of n])

lemma decimal_large:
  "\<not> n < 10 \<Longrightarrow> decimal n = decimal (n div 10) @ [''0123456789'' ! (n mod 10)]"
  by (simp add: decimal.simps[of n])

lemma of_decimal_snoc: "of_decimal (s @ [ch]) = 10 * of_decimal s + digit_value ch"
  by (simp add: of_decimal_def)

lemma of_decimal_decimal: "of_decimal (decimal n) = n"
proof (induction n rule: decimal.induct)
  case (1 n)
  show ?case
  proof (cases "n < 10")
    case True
    then show ?thesis
      unfolding decimal_small[OF True] by (simp add: of_decimal_def digit_value_nth)
  next
    case False
    with 1 have "of_decimal (decimal (n div 10)) = n div 10" by simp
    then show ?thesis
      unfolding decimal_large[OF False] by (simp add: of_decimal_snoc digit_value_nth)
  qed
qed

lemma decimal_inj: "decimal a = decimal b \<Longrightarrow> a = b"
  by (metis of_decimal_decimal)

lemma decimal_no_bracket: "CHR '']'' \<notin> set (decimal n)"
proof (induction n rule: decimal.induct)
  case (1 n)
  show ?case
  proof (cases "n < 10")
    case True
    with digit_not_bracket[OF True] show ?thesis
      unfolding decimal_small[OF True] by auto
  next
    case False
    with 1 have "CHR '']'' \<notin> set (decimal (n div 10))" by simp
    moreover have "''0123456789'' ! (n mod 10) \<noteq> CHR '']''"
      by (rule digit_not_bracket) simp
    ultimately show ?thesis
      unfolding decimal_large[OF False] by auto
  qed
qed

lemma index_of_tail: "index_of p (p @ ''['' @ decimal i @ '']'' @ rest) = decimal i"
proof -
  have "takeWhile (\<lambda>c. c \<noteq> CHR '']'') (decimal i @ CHR '']'' # rest) = decimal i"
    using decimal_no_bracket[of i] by (subst takeWhile_append2) auto
  then show ?thesis by (simp add: index_of_def)
qed

lemma index_of_key: "index_of p (tuple_key p i) = decimal i"
  using index_of_tail[of p i "[]"] by (simp add: tuple_key_def)

lemma index_of_below: "below (tuple_key p i) k \<Longrightarrow> index_of p k = decimal i"
proof -
  assume "below (tuple_key p i) k"
  then obtain c rest where "k = tuple_key p i @ c # rest" by (auto simp: below_iff)
  then have "k = p @ ''['' @ decimal i @ '']'' @ c # rest" by (simp add: tuple_key_def)
  then show ?thesis by (simp only: index_of_tail)
qed

text \<open>
  The children of an object whose field names are distinct, not empty and without dot or
  opening bracket, and at the empty prefix not the name of a member of
  \<open>Object.prototype\<close>.
\<close>

lemma dispatch_object:
  assumes wk: "well_keyed rec" and al: "only_allocates rec"
    and d: "deref h u = Some (ZodObject shape)"
    and names: "distinct (map fst shape)" "\<forall>name \<in> fst ` set shape. simple_name name"
      "p = [] \<longrightarrow> fst ` set shape \<inter> set object_prototype_keys = {}"
    and run: "dispatch rec h u p = Inr (h', m)"
  shows "\<exists>subs. length subs = length shape \<and>
          m = JSRecord (assign_all (concat (map2 (\<lambda>(name, child) sub.
                  (object_key p name, child) # own sub) shape subs)) []) None \<and>
          distinct (map fst (concat (map2 (\<lambda>(name, child) sub.
                  (object_key p name, child) # own sub) shape subs))) \<and>
          fst ` set (concat (map2 (\<lambda>(name, child) sub.
                  (object_key p name, child) # own sub) shape subs)) \<inter> set object_prototype_keys = {} \<and>
          list_all2 (\<lambda>(name, child) sub.
              (\<exists>h0 h1. grows h h0 \<and> rec h0 child (object_key p name) = Inr (h1, sub) \<and> grows h1 h') \<and>
              (\<forall>k \<in> own_keys sub. below (object_key p name) k)) shape subs"
proof -
  from d run obtain h1 flats where
    mh: "map_heap (\<lambda>h' x. with_child rec h' (object_key p (fst x)) (snd x)) h shape = Inr (h1, flats)"
    and mg: "mergeSchemas h1 flats = Inr (h', m)"
    by (auto simp: dispatch_def split_def split: sum.splits)
  have "\<exists>subs. length subs = length shape \<and>
          m = JSRecord (assign_all (concat (map2 (\<lambda>x sub.
                  (object_key p (fst x), snd x) # own sub) shape subs)) []) None \<and>
          distinct (map fst (concat (map2 (\<lambda>x sub.
                  (object_key p (fst x), snd x) # own sub) shape subs))) \<and>
          fst ` set (concat (map2 (\<lambda>x sub.
                  (object_key p (fst x), snd x) # own sub) shape subs)) \<inter> set object_prototype_keys = {} \<and>
          list_all2 (\<lambda>x sub.
              (\<exists>h0 h2. grows h h0 \<and> rec h0 (snd x) (object_key p (fst x)) = Inr (h2, sub) \<and> grows h2 h') \<and>
              (\<forall>k \<in> own_keys sub. below (object_key p (fst x)) k)) shape subs"
  proof (rule children_merge[OF wk al mh mg, where g = "field_of p" and t = fst])
    fix x assume "x \<in> set shape"
    with names(2) have "simple_name (fst x)" by auto
    then show "object_key p (fst x) \<noteq> []" by (rule simple_name_key)
  next
    fix x assume "x \<in> set shape"
    with names(3) have "p = [] \<longrightarrow> fst x \<notin> set object_prototype_keys" by auto
    then show "object_key p (fst x) \<notin> set object_prototype_keys" by (rule object_key_plain)
  next
    fix x assume "x \<in> set shape"
    with names(2) have "simple_name (fst x)" by auto
    then show "field_of p (object_key p (fst x)) = fst x" by (rule field_of_key)
  next
    fix x k assume "x \<in> set shape" "below (object_key p (fst x)) k"
    with names(2) have "simple_name (fst x)" "below (object_key p (fst x)) k" by auto
    then show "field_of p k = fst x" by (rule field_of_below)
  next
    show "distinct (map fst shape)" by (rule names(1))
  qed
  then show ?thesis by (simp add: split_def)
qed

lemma dispatch_tuple:
  assumes wk: "well_keyed rec" and al: "only_allocates rec"
    and d: "deref h u = Some (ZodTuple elements)"
    and run: "dispatch rec h u p = Inr (h', m)"
  shows "\<exists>subs. length subs = length elements \<and>
          m = JSRecord (concat (map2 (\<lambda>(index, element) sub. (tuple_key p index, element) # own sub)
                        (enumerate 0 elements) subs)) None \<and>
          distinct (map fst (own m)) \<and>
          own_keys m \<inter> set object_prototype_keys = {} \<and>
          list_all2 (\<lambda>(index, element) sub.
              (\<exists>h0 h1. grows h h0 \<and> rec h0 element (tuple_key p index) = Inr (h1, sub) \<and> grows h1 h') \<and>
              (\<forall>k \<in> own_keys sub. below (tuple_key p index) k)) (enumerate 0 elements) subs"
proof -
  from d run obtain h1 flats where
    mh: "map_heap (\<lambda>h' x. with_child rec h' (tuple_key p (fst x)) (snd x)) h (enumerate 0 elements) =
           Inr (h1, flats)"
    and mg: "mergeSchemas h1 flats = Inr (h', m)"
    by (auto simp: dispatch_def split_def split: sum.splits)
  have dist: "distinct (map (\<lambda>x. decimal (fst x)) (enumerate 0 elements))"
    by (auto simp: distinct_map inj_on_def in_set_enumerate_eq dest: decimal_inj)
  from children_merge[OF wk al mh mg, where g = "index_of p" and t = "\<lambda>x. decimal (fst x)",
      OF tuple_key_plain(3) tuple_key_plain(1) index_of_key index_of_below dist]
  obtain subs where
    len: "length subs = length (enumerate 0 elements)"
    and m: "m = JSRecord (assign_all (concat (map2 (\<lambda>x sub. (tuple_key p (fst x), snd x) # own sub)
              (enumerate 0 elements) subs)) []) None"
    and dm: "distinct (map fst (concat (map2 (\<lambda>x sub. (tuple_key p (fst x), snd x) # own sub)
              (enumerate 0 elements) subs)))"
    and pl: "fst ` set (concat (map2 (\<lambda>x sub. (tuple_key p (fst x), snd x) # own sub)
              (enumerate 0 elements) subs)) \<inter> set object_prototype_keys = {}"
    and all: "list_all2 (\<lambda>x sub.
              (\<exists>h0 h2. grows h h0 \<and> rec h0 (snd x) (tuple_key p (fst x)) = Inr (h2, sub) \<and> grows h2 h') \<and>
              (\<forall>k \<in> own_keys sub. below (tuple_key p (fst x)) k)) (enumerate 0 elements) subs"
    by blast
  let ?segs = "concat (map2 (\<lambda>x sub. (tuple_key p (fst x), snd x) # own sub) (enumerate 0 elements) subs)"
  have "array_index (fst e) = None" if "e \<in> set ?segs" for e
  proof -
    from that obtain seg where "seg \<in> set (map2 (\<lambda>x sub. (tuple_key p (fst x), snd x) # own sub)
      (enumerate 0 elements) subs)" "e \<in> set seg" by (auto simp only: set_concat)
    then obtain i where i: "i < length (enumerate 0 elements)"
      "seg = (tuple_key p (fst (enumerate 0 elements ! i)), snd (enumerate 0 elements ! i)) # own (subs ! i)"
      using len by (auto simp: in_set_conv_nth)
    from all i(1) have "\<forall>k \<in> own_keys (subs ! i). below (tuple_key p (fst (enumerate 0 elements ! i))) k"
      by (auto simp: list_all2_conv_all_nth)
    with \<open>e \<in> set seg\<close> i(2) show ?thesis
      by (auto simp: own_keys_def tuple_key_plain(2) dest: below_plain(2))
  qed
  with dm have "assign_all ?segs [] = [] @ ?segs"
    by (intro assign_all_plain) auto
  with m have m': "m = JSRecord ?segs None" by simp
  from m' dm have "distinct (map fst (own m))" by simp
  moreover from m' pl have "own_keys m \<inter> set object_prototype_keys = {}"
    by (simp add: own_keys_def)
  moreover from len have "length subs = length elements" by simp
  ultimately have "length subs = length elements \<and> m = JSRecord ?segs None \<and>
      distinct (map fst (own m)) \<and> own_keys m \<inter> set object_prototype_keys = {} \<and>
      list_all2 (\<lambda>x sub.
              (\<exists>h0 h2. grows h h0 \<and> rec h0 (snd x) (tuple_key p (fst x)) = Inr (h2, sub) \<and> grows h2 h') \<and>
              (\<forall>k \<in> own_keys sub. below (tuple_key p (fst x)) k)) (enumerate 0 elements) subs"
    using m' all by blast
  from this[unfolded split_def] show ?thesis unfolding split_def by (rule exI)
qed

subsection \<open>The entry a parent writes for a child\<close>

lemma remerge_plain:
  assumes "tidy (own m1)" "proto m1 = None" "own_keys m1 \<inter> set object_prototype_keys = {}"
    and "mergeSchemas h1 [m1] = Inr (h', m)"
  shows "h' = h1" "m = m1"
  using mergeSchemas_single[OF assms(1,3), of h1] assms(2,4) by (simp_all add: jsrecord_eq)

lemma flattenSchema_at_kind:
  assumes "flattenSchema n h s p = Inr (h', m)" "\<And>j. unwrapSchema (Suc j) h s = Inr s"
  shows "\<exists>j h1 m1. n = Suc (Suc j) \<and> dispatch (flattenSchema (Suc j)) h s p = Inr (h1, m1) \<and>
           mergeSchemas h1 [m1] = Inr (h', m)"
proof -
  from assms(1) obtain i where i: "n = Suc i" by (cases n) auto
  with assms(1) obtain j where j: "i = Suc j"
    by (cases i) (auto simp: flattenSchema_dispatch simp del: flattenSchema.simps)
  from assms(1) i j assms(2)[of j] show ?thesis
    by (auto simp: flattenSchema_dispatch simp del: flattenSchema.simps unwrapSchema.simps
        split: sum.splits)
qed

lemma array_entry:
  assumes "deref h parent = Some (ZodArray w)" "flattenSchema j h parent p = Inr (h', m)"
  shows "\<exists>i sub. j = Suc (Suc i) \<and> flattenSchema (Suc i) h w (p @ ''[]'') = Inr (h', sub) \<and>
           m = JSRecord ((p @ ''[]'', w) # own sub) None \<and> (\<forall>k \<in> own_keys sub. below (p @ ''[]'') k)"
proof -
  from assms(1) have "unwrapSchema (Suc j) h parent = Inr parent" for j by simp
  from flattenSchema_at_kind[OF assms(2) this] obtain i h1 m1 where
    j: "j = Suc (Suc i)" and dp: "dispatch (flattenSchema (Suc i)) h parent p = Inr (h1, m1)"
    and mg: "mergeSchemas h1 [m1] = Inr (h', m)" by blast
  from dp assms(1) have "with_child (flattenSchema (Suc i)) h (p @ ''[]'') w = Inr (h1, m1)"
    by (simp add: dispatch_def)
  from with_child_Cons[OF flattenSchema_well_keyed array_key_plain(3) array_key_plain(1) this]
  obtain sub where sub: "flattenSchema (Suc i) h w (p @ ''[]'') = Inr (h1, sub)"
    "m1 = JSRecord ((p @ ''[]'', w) # own sub) None" "\<forall>x \<in> own_keys sub. below (p @ ''[]'') x"
    by blast
  have "own_keys m1 \<inter> set object_prototype_keys = {}"
    using sub(2,3) array_key_plain(1)[of p] by (auto simp: own_keys_def dest: below_plain(1))
  from remerge_plain[OF dispatch_tidy[OF dp] _ this mg] sub j show ?thesis by auto
qed

lemma tuple_entries:
  assumes d: "deref h parent = Some (ZodTuple elements)"
    and run: "flattenSchema (Suc n) h parent p = Inr (h', m)"
  shows "\<exists>subs. length subs = length elements \<and>
          m = JSRecord (concat (map2 (\<lambda>(index, element) sub. (tuple_key p index, element) # own sub)
                        (enumerate 0 elements) subs)) None \<and>
          distinct (map fst (own m)) \<and>
          list_all2 (\<lambda>(index, element) sub.
              (\<exists>h0 h1. grows h h0 \<and> flattenSchema n h0 element (tuple_key p index) = Inr (h1, sub) \<and>
                 grows h1 h') \<and>
              (\<forall>k \<in> own_keys sub. below (tuple_key p index) k)) (enumerate 0 elements) subs"
proof -
  from d have "unwrapSchema (Suc j) h parent = Inr parent" for j by simp
  from flattenSchema_at_kind[OF run this] obtain j h1 m1 where
    n: "Suc n = Suc (Suc j)" and dp: "dispatch (flattenSchema (Suc j)) h parent p = Inr (h1, m1)"
    and mg: "mergeSchemas h1 [m1] = Inr (h', m)" by blast
  from n dp have dp: "dispatch (flattenSchema n) h parent p = Inr (h1, m1)" by simp
  from dispatch_tuple[OF flattenSchema_well_keyed flattenSchema_only_allocates d dp]
  obtain subs where s: "length subs = length elements"
    "m1 = JSRecord (concat (map2 (\<lambda>(index, element) sub. (tuple_key p index, element) # own sub)
                        (enumerate 0 elements) subs)) None"
    "distinct (map fst (own m1))"
    "own_keys m1 \<inter> set object_prototype_keys = {}"
    "list_all2 (\<lambda>(index, element) sub.
              (\<exists>h0 h2. grows h h0 \<and> flattenSchema n h0 element (tuple_key p index) = Inr (h2, sub) \<and>
                 grows h2 h1) \<and>
              (\<forall>k \<in> own_keys sub. below (tuple_key p index) k)) (enumerate 0 elements) subs"
    by blast
  from s(2) have "proto m1 = None" by simp
  from remerge_plain[OF dispatch_tidy[OF dp] this s(4) mg] have "h' = h1" "m = m1" .
  with s show ?thesis by blast
qed

lemma object_entries_aux:
  assumes d: "deref h schema = Some (ZodObject shape)"
    and names: "distinct (map fst shape)" "\<forall>name \<in> fst ` set shape. simple_name name"
      "p = [] \<longrightarrow> fst ` set shape \<inter> set object_prototype_keys = {}"
    and run: "flattenSchema (Suc n) h schema p = Inr (h', m)"
  shows "\<exists>subs. length subs = length shape \<and>
          m = JSRecord (assign_all (concat (map2 (\<lambda>(name, child) sub.
                  (object_key p name, child) # own sub) shape subs)) []) None \<and>
          distinct (map fst (concat (map2 (\<lambda>(name, child) sub.
                  (object_key p name, child) # own sub) shape subs))) \<and>
          list_all2 (\<lambda>(name, child) sub.
              (\<exists>h0 h1. grows h h0 \<and> flattenSchema n h0 child (object_key p name) = Inr (h1, sub) \<and>
                 grows h1 h') \<and>
              (\<forall>k \<in> own_keys sub. below (object_key p name) k)) shape subs"
proof -
  from d have "unwrapSchema (Suc j) h schema = Inr schema" for j by simp
  from flattenSchema_at_kind[OF run this] obtain j h1 m1 where
    n: "Suc n = Suc (Suc j)" and dp: "dispatch (flattenSchema (Suc j)) h schema p = Inr (h1, m1)"
    and mg: "mergeSchemas h1 [m1] = Inr (h', m)" by blast
  from n dp have dp: "dispatch (flattenSchema n) h schema p = Inr (h1, m1)" by simp
  from dispatch_object[OF flattenSchema_well_keyed flattenSchema_only_allocates d names dp]
  obtain subs where s: "length subs = length shape"
    "m1 = JSRecord (assign_all (concat (map2 (\<lambda>(name, child) sub.
                  (object_key p name, child) # own sub) shape subs)) []) None"
    "distinct (map fst (concat (map2 (\<lambda>(name, child) sub.
                  (object_key p name, child) # own sub) shape subs)))"
    "fst ` set (concat (map2 (\<lambda>(name, child) sub.
                  (object_key p name, child) # own sub) shape subs)) \<inter> set object_prototype_keys = {}"
    "list_all2 (\<lambda>(name, child) sub.
              (\<exists>h0 h2. grows h h0 \<and> flattenSchema n h0 child (object_key p name) = Inr (h2, sub) \<and>
                 grows h2 h1) \<and>
              (\<forall>k \<in> own_keys sub. below (object_key p name) k)) shape subs"
    by blast
  from s(2) have pr: "proto m1 = None" by simp
  from s(2,4) have "own_keys m1 \<inter> set object_prototype_keys = {}"
    by (simp add: own_keys_def)
  from remerge_plain[OF dispatch_tidy[OF dp] pr this mg] have "h' = h1" "m = m1" .
  with s show ?thesis by blast
qed

text \<open>A map whose keys are distinct holds each of its entries.\<close>

lemma assign_all_entry:
  assumes "distinct (map fst xs)" "(k, v) \<in> set xs"
  shows "map_of (assign_all xs []) k = Some v"
proof -
  from assms(1) have "set (assign_all xs []) = set [] \<union> set xs"
    by (intro set_assign_all) auto
  moreover have "distinct (map fst (assign_all xs []))"
    by (rule distinct_assign_all) simp
  ultimately show ?thesis using assms(2) by (intro map_of_is_SomeI) auto
qed

subsection \<open>Wrappers are transparent\<close>

lemma wrapper_of_unwrap:
  "wrapper_of h w inner \<Longrightarrow> unwrapSchema (Suc n) h w = unwrapSchema n h inner"
  by (auto simp: wrapper_of_def)

lemma wrapper_of_grows: "grows h h' \<Longrightarrow> wrapper_of h w inner \<Longrightarrow> wrapper_of h' w inner"
  by (auto simp: wrapper_of_def dest: deref_grows)

lemma wrapper_step:
  assumes w: "wrapper_of h w inner"
  shows "flattenSchema n h w p = Inr r \<Longrightarrow> flattenSchema n h inner p = Inr r"
    and "flattenSchema n h inner p = Inr r \<Longrightarrow> flattenSchema (Suc n) h w p = Inr r"
proof -
  assume run: "flattenSchema n h w p = Inr r"
  then obtain i where n: "n = Suc i" by (cases n) auto
  from run n obtain u h1 m1 where u: "unwrapSchema i h w = Inr u"
    and d: "dispatch (flattenSchema i) h u p = Inr (h1, m1)"
    and mg: "mergeSchemas h1 [m1] = Inr r"
    by (auto simp: flattenSchema_dispatch split: sum.splits simp del: flattenSchema.simps)
  from u obtain j where i: "i = Suc j" by (cases i) auto
  from u i wrapper_of_unwrap[OF w, of j] have "unwrapSchema j h inner = Inr u" by simp
  then have "unwrapSchema i h inner = Inr u" unfolding i by (rule unwrapSchema_Suc)
  with d mg show "flattenSchema n h inner p = Inr r"
    unfolding n by (simp add: flattenSchema_dispatch del: flattenSchema.simps unwrapSchema.simps)
next
  assume run: "flattenSchema n h inner p = Inr r"
  then obtain i where n: "n = Suc i" by (cases n) auto
  from run n obtain u h1 m1 where u: "unwrapSchema i h inner = Inr u"
    and d: "dispatch (flattenSchema i) h u p = Inr (h1, m1)"
    and mg: "mergeSchemas h1 [m1] = Inr r"
    by (auto simp: flattenSchema_dispatch split: sum.splits simp del: flattenSchema.simps)
  from u wrapper_of_unwrap[OF w, of i] have u': "unwrapSchema n h w = Inr u" by (simp add: n)
  from refinesD[OF dispatch_mono[OF flattenSchema_Suc] d]
  have "dispatch (flattenSchema n) h u p = Inr (h1, m1)" by (simp add: n)
  with u' mg show "flattenSchema (Suc n) h w p = Inr r"
    by (simp add: flattenSchema_dispatch del: flattenSchema.simps unwrapSchema.simps)
qed

lemma wrapper_chain:
  assumes "(wrapper_of h ^^ k) w t"
  shows "flattenSchema n h w p = Inr r \<Longrightarrow> flattenSchema n h t p = Inr r"
    and "flattenSchema n h t p = Inr r \<Longrightarrow> flattenSchema (n + k) h w p = Inr r"
proof -
  have "(flattenSchema n h w p = Inr r \<longrightarrow> flattenSchema n h t p = Inr r) \<and>
        (flattenSchema n h t p = Inr r \<longrightarrow> flattenSchema (n + k) h w p = Inr r)"
    using assms
  proof (induction k arbitrary: t n)
    case 0
    then show ?case by simp
  next
    case (Suc k)
    from Suc.prems obtain i where i: "(wrapper_of h ^^ k) w i" "wrapper_of h i t" by auto
    from Suc.IH[OF i(1)] wrapper_step[OF i(2)] show ?case
    proof (intro conjI impI)
      assume "flattenSchema n h w p = Inr r"
      with Suc.IH[OF i(1), of n] have "flattenSchema n h i p = Inr r" by blast
      then show "flattenSchema n h t p = Inr r" by (rule wrapper_step(1)[OF i(2)])
    next
      assume "flattenSchema n h t p = Inr r"
      then have "flattenSchema (Suc n) h i p = Inr r" by (rule wrapper_step(2)[OF i(2)])
      with Suc.IH[OF i(1), of "Suc n"] show "flattenSchema (n + Suc k) h w p = Inr r" by simp
    qed
  qed
  then show "flattenSchema n h w p = Inr r \<Longrightarrow> flattenSchema n h t p = Inr r"
    and "flattenSchema n h t p = Inr r \<Longrightarrow> flattenSchema (n + k) h w p = Inr r"
    by blast+
qed

subsection \<open>The entry of a declared path\<close>

lemma follow_append:
  "follow h s p (steps @ more) =
     (case follow h s p steps of None \<Rightarrow> None | Some (q, c) \<Rightarrow> follow h c q more)"
  by (induction h s p steps rule: follow.induct)
     (auto split: option.splits zod.splits)

lemma proper_namesD:
  assumes "proper_names p shape"
  shows "distinct (map fst shape)" "\<forall>name \<in> fst ` set shape. simple_name name"
    "p = [] \<longrightarrow> fst ` set shape \<inter> set object_prototype_keys = {}"
  using assms by (auto simp: proper_names_def list_all_iff)

lemma segment_member:
  assumes "i < length xs" "length subs = length xs"
  shows "set (f (xs ! i) (subs ! i)) \<subseteq> set (concat (map2 f xs subs))"
proof -
  from assms have "f (xs ! i) (subs ! i) \<in> set (map2 f xs subs)"
    by (force simp: in_set_conv_nth)
  then show ?thesis by auto
qed

lemma follow_stored:
  assumes "follow h s p steps = Some (q, w)" "steps \<noteq> []" "last steps \<noteq> Unwrap"
    and "grows h h0" "flattenSchema n h0 s p = Inr (h', m)"
  shows "map_of (own m) q = Some w"
  using assms
proof (induction steps arbitrary: s p n h0 h' m)
  case Nil
  then show ?case by simp
next
  case (Cons st steps)
  note g = \<open>grows h h0\<close> and run = \<open>flattenSchema n h0 s p = Inr (h', m)\<close>
  have rest: "steps \<noteq> [] \<Longrightarrow> last steps \<noteq> Unwrap" using Cons.prems(3) by simp
  show ?case
  proof (cases st)
    case Element
    with Cons.prems(1) obtain e where d: "deref h s = Some (ZodArray e)"
      and f: "follow h e (p @ ''[]'') steps = Some (q, w)"
      by (auto split: option.splits zod.splits)
    from array_entry[OF deref_grows[OF g d] run] obtain i sub where
      sub: "flattenSchema (Suc i) h0 e (p @ ''[]'') = Inr (h', sub)"
        "m = JSRecord ((p @ ''[]'', e) # own sub) None" "\<forall>k \<in> own_keys sub. below (p @ ''[]'') k"
      by blast
    show ?thesis
    proof (cases "steps = []")
      case True
      with f sub(2) show ?thesis by simp
    next
      case False
      from Cons.IH[OF f False rest[OF False] g sub(1)] have q: "map_of (own sub) q = Some w" .
      then have "q \<in> own_keys sub" by (auto simp: own_keys_def dest: map_of_SomeD intro: rev_image_eqI)
      with sub(3) have "q \<noteq> p @ ''[]''" by (auto dest: below_neq)
      with q sub(2) show ?thesis by simp
    qed
  next
    case (Item i)
    with Cons.prems(1) obtain es where d: "deref h s = Some (ZodTuple es)" and i: "i < length es"
      and f: "follow h (es ! i) (tuple_key p i) steps = Some (q, w)"
      by (auto split: option.splits zod.splits if_splits)
    from run obtain n' where n: "n = Suc n'" by (cases n) auto
    from tuple_entries[OF deref_grows[OF g d] run[unfolded n]] obtain subs where
      len: "length subs = length es"
      and m: "m = JSRecord (concat (map2 (\<lambda>(index, element) sub. (tuple_key p index, element) # own sub)
                        (enumerate 0 es) subs)) None"
      and dist: "distinct (map fst (own m))"
      and all: "list_all2 (\<lambda>(index, element) sub.
              (\<exists>h1 h2. grows h0 h1 \<and> flattenSchema n' h1 element (tuple_key p index) = Inr (h2, sub) \<and>
                 grows h2 h') \<and>
              (\<forall>k \<in> own_keys sub. below (tuple_key p index) k)) (enumerate 0 es) subs"
      by blast
    from i len have seg: "set ((tuple_key p i, es ! i) # own (subs ! i)) \<subseteq> set (own m)"
      using segment_member[of i "enumerate 0 es" subs
          "\<lambda>x sub. (tuple_key p (fst x), snd x) # own sub"]
      unfolding m by (simp add: split_def nth_enumerate_eq)
    have "(q, w) \<in> set (own m)"
    proof (cases "steps = []")
      case True
      with f seg show ?thesis by simp
    next
      case False
      from all i have "\<exists>h1 h2. grows h0 h1 \<and>
          flattenSchema n' h1 (es ! i) (tuple_key p i) = Inr (h2, subs ! i) \<and> grows h2 h'"
        by (auto simp: list_all2_conv_all_nth nth_enumerate_eq)
      then obtain h1 h2 where r: "grows h0 h1"
        "flattenSchema n' h1 (es ! i) (tuple_key p i) = Inr (h2, subs ! i)" by blast
      from Cons.IH[OF f False rest[OF False] grows_trans[OF g r(1)] r(2)]
      have "map_of (own (subs ! i)) q = Some w" .
      then have "(q, w) \<in> set (own (subs ! i))" by (rule map_of_SomeD)
      then have "(q, w) \<in> set ((tuple_key p i, es ! i) # own (subs ! i))" by simp
      with seg show ?thesis by (rule subsetD)
    qed
    with dist show ?thesis by (rule map_of_is_SomeI)
  next
    case (Field name)
    with Cons.prems(1) obtain shape c where d: "deref h s = Some (ZodObject shape)"
      and pn: "proper_names p shape" and c: "map_of shape name = Some c"
      and f: "follow h c (object_key p name) steps = Some (q, w)"
      by (auto split: option.splits zod.splits if_splits)
    from run obtain n' where n: "n = Suc n'" by (cases n) auto
    from object_entries_aux[OF deref_grows[OF g d] proper_namesD[OF pn] run[unfolded n]]
    obtain subs where
      len: "length subs = length shape"
      and m: "m = JSRecord (assign_all (concat (map2 (\<lambda>(name, child) sub.
                  (object_key p name, child) # own sub) shape subs)) []) None"
      and dist: "distinct (map fst (concat (map2 (\<lambda>(name, child) sub.
                  (object_key p name, child) # own sub) shape subs)))"
      and all: "list_all2 (\<lambda>(name, child) sub.
              (\<exists>h1 h2. grows h0 h1 \<and> flattenSchema n' h1 child (object_key p name) = Inr (h2, sub) \<and>
                 grows h2 h') \<and>
              (\<forall>k \<in> own_keys sub. below (object_key p name) k)) shape subs"
      by blast
    let ?segs = "concat (map2 (\<lambda>(name, child) sub. (object_key p name, child) # own sub) shape subs)"
    from c have "(name, c) \<in> set shape" by (rule map_of_SomeD)
    then obtain i where i: "i < length shape" "shape ! i = (name, c)"
      by (auto simp: in_set_conv_nth)
    from i len have seg: "set ((object_key p name, c) # own (subs ! i)) \<subseteq> set ?segs"
      using segment_member[of i shape subs "\<lambda>x sub. (object_key p (fst x), snd x) # own sub"]
      by (simp add: split_def)
    have "(q, w) \<in> set ?segs"
    proof (cases "steps = []")
      case True
      with f seg show ?thesis by simp
    next
      case False
      from all i(1) have "(\<lambda>(name, child) sub.
              (\<exists>h1 h2. grows h0 h1 \<and> flattenSchema n' h1 child (object_key p name) = Inr (h2, sub) \<and>
                 grows h2 h') \<and>
              (\<forall>k \<in> own_keys sub. below (object_key p name) k)) (shape ! i) (subs ! i)"
        by (rule list_all2_nthD)
      with i(2) have "\<exists>h1 h2. grows h0 h1 \<and>
          flattenSchema n' h1 c (object_key p name) = Inr (h2, subs ! i) \<and> grows h2 h'"
        by simp
      then obtain h1 h2 where r: "grows h0 h1"
        "flattenSchema n' h1 c (object_key p name) = Inr (h2, subs ! i)" by blast
      from Cons.IH[OF f False rest[OF False] grows_trans[OF g r(1)] r(2)]
      have "map_of (own (subs ! i)) q = Some w" .
      then have "(q, w) \<in> set (own (subs ! i))" by (rule map_of_SomeD)
      then have "(q, w) \<in> set ((object_key p name, c) # own (subs ! i))" by simp
      with seg show ?thesis by (rule subsetD)
    qed
    from assign_all_entry[OF dist this] m show ?thesis by simp
  next
    case Unwrap
    with Cons.prems(3) have ne: "steps \<noteq> []" by auto
    from Unwrap Cons.prems(1) obtain inner where w: "wrapper_of h s inner"
      and f: "follow h inner p steps = Some (q, w)"
      by (auto simp: wrapper_of_def split: option.splits zod.splits)
    from wrapper_step(1)[OF wrapper_of_grows[OF g w] run]
    have "flattenSchema n h0 inner p = Inr (h', m)" .
    from Cons.IH[OF f ne rest[OF ne] g this] show ?thesis .
  qed
qed

subsection \<open>Relocation\<close>

lemma relocate_simps [simp]:
  "relocate L d Undefined = Undefined"
  "relocate L d (Intrinsic name) = Intrinsic name"
  "L \<le> a \<Longrightarrow> relocate L d (Addr a) = Addr (a + d)"
  "a < L \<Longrightarrow> relocate L d (Addr a) = Addr a"
  by (simp_all add: relocate_def)

lemma relocate_eq_Undefined [simp]: "relocate L d r = Undefined \<longleftrightarrow> r = Undefined"
  by (cases r) (auto simp: relocate_def)

lemma relocate_allocated: "allocated h r \<Longrightarrow> relocate (length h) d r = r"
  by (cases r) (auto simp: allocated_def)

lemma map_of_apsnd: "map_of (map (apsnd f) xs) k = map_option f (map_of xs k)"
  by (induction xs) auto

lemma insert_index_apsnd:
  "insert_index i (apsnd f e) (map (apsnd f) xs) = map (apsnd f) (insert_index i e xs)"
  by (induction xs) (auto split: option.splits)

lemma update_apsnd: "AList.update k (f v) (map (apsnd f) xs) = map (apsnd f) (AList.update k v xs)"
  by (induction xs) auto

lemma assign_apsnd: "assign (map (apsnd f) props) k (f v) = map (apsnd f) (assign props k v)"
  using insert_index_apsnd[of _ f "(k, v)" props]
  by (auto simp: assign_def map_of_apsnd update_apsnd split: option.splits)

lemma relocate_record_simps [simp]:
  "own (relocate_record L d m) = map (apsnd (relocate L d)) (own m)"
  "proto (relocate_record L d m) = map_option (relocate L d) (proto m)"
  "relocate_record L d (JSRecord props None) = JSRecord (map (apsnd (relocate L d)) props) None"
  by (simp_all add: relocate_record_def)

lemma current_value_relocate:
  "current_value (relocate_record L d acc) key =
     (case current_value acc key of Inl f \<Rightarrow> Inl f | Inr current \<Rightarrow> Inr (relocate L d current))"
  by (auto simp: current_value_def map_of_apsnd split: option.splits)

lemma store_relocate:
  "store (relocate_record L d acc) key (relocate L d v) = relocate_record L d (store acc key v)"
  by (auto simp: store_def relocate_record_def map_of_apsnd assign_apsnd)

lemma relocatedD:
  assumes "relocated L d hA hB"
  shows "L \<le> length hA" "length hB = length hA + d"
    "deref hB (relocate L d r) = map_option (relocate_zod L d) (deref hA r)"
  using assms by (auto simp: relocated_def)

lemma relocated_snoc:
  assumes "relocated L d hA hB"
  shows "relocated L d (hA @ [z]) (hB @ [relocate_zod L d z])"
  unfolding relocated_def
proof (intro conjI allI)
  from relocatedD(1,2)[OF assms] show "L \<le> length (hA @ [z])"
    "length (hB @ [relocate_zod L d z]) = length (hA @ [z]) + d" by simp_all
  fix r
  show "deref (hB @ [relocate_zod L d z]) (relocate L d r) =
          map_option (relocate_zod L d) (deref (hA @ [z]) r)"
  proof (cases "deref hA r")
    case (Some y)
    with relocatedD(3)[OF assms, of r]
    have "deref hB (relocate L d r) = Some (relocate_zod L d y)" by simp
    from deref_extends[OF extends_append this] deref_extends[OF extends_append Some]
    show ?thesis by simp
  next
    case None
    show ?thesis
    proof (cases r)
      case (Addr a)
      with None have a: "length hA \<le> a" by (auto simp: deref_def split: if_splits)
      with relocatedD(1)[OF assms] have "relocate L d r = Addr (a + d)" by (simp add: Addr)
      with a relocatedD(2)[OF assms] Addr show ?thesis
        by (auto simp: deref_def nth_append)
    qed (simp_all add: deref_def)
  qed
qed

lemma splice_relocate:
  assumes "relocated L d hA hB"
  shows "splice hB (relocate L d current) = map (relocate L d) (splice hA current)"
proof (cases "deref hA current")
  case None
  with relocatedD(3)[OF assms, of current] show ?thesis by (simp add: splice_def)
next
  case (Some z)
  with relocatedD(3)[OF assms, of current] show ?thesis by (cases z) (simp_all add: splice_def)
qed

lemma merge_entry_splice:
  "merge_entry (h, acc) (k, v) =
     (case current_value acc k of
        Inl f \<Rightarrow> Inl f
      | Inr current \<Rightarrow>
          if current = Undefined then Inr (h, store acc k v)
          else Inr (h @ [ZodUnion (splice h current @ [v])], store acc k (Addr (length h))))"
  by (auto simp: merge_entry_def splice_def z_union_def split: sum.splits option.splits zod.splits)

lemma merge_entry_relocate:
  assumes rel: "relocated L d hA hB" and run: "merge_entry (hA, acc) (k, v) = Inr (hA', acc')"
  shows "\<exists>hB'. merge_entry (hB, relocate_record L d acc) (k, relocate L d v) =
                  Inr (hB', relocate_record L d acc') \<and> relocated L d hA' hB'"
proof -
  from run obtain current where c: "current_value acc k = Inr current"
    by (auto simp: merge_entry_splice split: sum.splits)
  show ?thesis
  proof (cases "current = Undefined")
    case True
    with run c have "hA' = hA" "acc' = store acc k v" by (simp_all add: merge_entry_splice)
    with True c rel show ?thesis
      by (simp add: merge_entry_splice current_value_relocate store_relocate)
  next
    case False
    with run c have r: "hA' = hA @ [ZodUnion (splice hA current @ [v])]"
      "acc' = store acc k (Addr (length hA))" by (simp_all add: merge_entry_splice)
    from relocatedD(1,2)[OF rel] have a: "relocate L d (Addr (length hA)) = Addr (length hB)"
      by simp
    have "merge_entry (hB, relocate_record L d acc) (k, relocate L d v) =
        Inr (hB @ [relocate_zod L d (ZodUnion (splice hA current @ [v]))],
             store (relocate_record L d acc) k (relocate L d (Addr (length hA))))"
      using False c by (simp add: merge_entry_splice current_value_relocate splice_relocate[OF rel] a)
    with relocated_snoc[OF rel] r show ?thesis by (simp only: store_relocate) blast
  qed
qed

lemma reduce_merge_relocate:
  assumes "relocated L d hA hB" "reduce merge_entry (hA, acc) xs = Inr (hA', acc')"
  shows "\<exists>hB'. reduce merge_entry (hB, relocate_record L d acc) (map (apsnd (relocate L d)) xs) =
                  Inr (hB', relocate_record L d acc') \<and> relocated L d hA' hB'"
  using assms
proof (induction xs arbitrary: hA hB acc)
  case Nil
  then show ?case by auto
next
  case (Cons x xs)
  obtain k v where x: "x = (k, v)" by (cases x)
  from Cons.prems(2) x obtain h1 acc1 where
    s: "merge_entry (hA, acc) (k, v) = Inr (h1, acc1)"
    and r: "reduce merge_entry (h1, acc1) xs = Inr (hA', acc')"
    by (auto split: sum.splits)
  from merge_entry_relocate[OF Cons.prems(1) s] obtain hB1 where
    s': "merge_entry (hB, relocate_record L d acc) (k, relocate L d v) =
           Inr (hB1, relocate_record L d acc1)" and rel1: "relocated L d h1 hB1" by blast
  from Cons.IH[OF rel1 r] s' show ?case by (simp add: x)
qed

lemma mergeSchemas_relocate:
  assumes "relocated L d hA hB" "mergeSchemas hA ms = Inr (hA', m)"
  shows "\<exists>hB'. mergeSchemas hB (map (relocate_record L d) ms) = Inr (hB', relocate_record L d m) \<and>
           relocated L d hA' hB'"
proof -
  have "concat (map own (map (relocate_record L d) ms)) =
          map (apsnd (relocate L d)) (concat (map own ms))"
    by (simp add: map_concat comp_def)
  with reduce_merge_relocate[OF assms(1), of "JSRecord [] None" "concat (map own ms)" hA' m] assms(2)
  show ?thesis by (simp add: mergeSchemas_concat)
qed

lemma map_heap_relocate:
  assumes step: "\<And>hA hB x hA' y. relocated L d hA hB \<Longrightarrow> f hA x = Inr (hA', y) \<Longrightarrow>
      \<exists>hB'. g hB (t x) = Inr (hB', relocate_record L d y) \<and> relocated L d hA' hB'"
    and "relocated L d hA hB" "map_heap f hA xs = Inr (hA', ys)"
  shows "\<exists>hB'. map_heap g hB (map t xs) = Inr (hB', map (relocate_record L d) ys) \<and>
           relocated L d hA' hB'"
  using assms(2,3)
proof (induction xs arbitrary: hA hB ys)
  case Nil
  then show ?case by auto
next
  case (Cons x xs)
  from Cons.prems(2) obtain h1 y zs where
    fx: "f hA x = Inr (h1, y)" and rest: "map_heap f h1 xs = Inr (hA', zs)" and ys: "ys = y # zs"
    by (auto split: sum.splits prod.splits)
  from step[OF Cons.prems(1) fx] obtain hB1 where
    gx: "g hB (t x) = Inr (hB1, relocate_record L d y)" and rel1: "relocated L d h1 hB1" by blast
  from Cons.IH[OF rel1 rest] gx show ?case by (auto simp: ys)
qed

lemma equivariantD:
  assumes "equivariant L d rec" "relocated L d hA hB" "rec hA s p = Inr (hA', m)"
  shows "\<exists>hB'. rec hB (relocate L d s) p = Inr (hB', relocate_record L d m) \<and> relocated L d hA' hB'"
  using assms unfolding equivariant_def by blast

lemma with_child_relocate:
  assumes eq: "equivariant L d rec" and rel: "relocated L d hA hB"
    and run: "with_child rec hA k v = Inr (hA', m)"
  shows "\<exists>hB'. with_child rec hB k (relocate L d v) = Inr (hB', relocate_record L d m) \<and>
           relocated L d hA' hB'"
proof -
  from run obtain h1 sub where r: "rec hA v k = Inr (h1, sub)"
    and mg: "mergeSchemas h1 [JSRecord [(k, v)] None, sub] = Inr (hA', m)"
    by (auto simp: with_child_def split: sum.splits)
  from equivariantD[OF eq rel r] obtain hB1 where
    r': "rec hB (relocate L d v) k = Inr (hB1, relocate_record L d sub)"
    and rel1: "relocated L d h1 hB1" by blast
  from mergeSchemas_relocate[OF rel1 mg] r' show ?thesis
    by (simp add: with_child_def)
qed

lemma enumerate_apsnd: "enumerate n (map f xs) = map (apsnd f) (enumerate n xs)"
  by (induction xs arbitrary: n) auto

lemma unwrapSchema_relocate:
  assumes "relocated L d hA hB" "unwrapSchema n hA s = Inr u"
  shows "unwrapSchema n hB (relocate L d s) = Inr (relocate L d u)"
  using assms(2)
proof (induction n arbitrary: s)
  case 0
  then show ?case by simp
next
  case (Suc n)
  show ?case
  proof (cases "deref hA s")
    case None
    with Suc.prems relocatedD(3)[OF assms(1), of s] show ?thesis by simp
  next
    case (Some z)
    with Suc relocatedD(3)[OF assms(1), of s] show ?thesis by (cases z) auto
  qed
qed

lemma dispatch_relocate:
  assumes eq: "equivariant L d rec"
  shows "equivariant L d (dispatch rec)"
  unfolding equivariant_def
proof (intro allI impI)
  fix hA hB s p hA' m
  assume rel: "relocated L d hA hB" and run: "dispatch rec hA s p = Inr (hA', m)"
  note dB = relocatedD(3)[OF rel, of s]
  have empty: "\<exists>hB'. Inr (hB, JSRecord [] None) = Inr (hB', relocate_record L d m) \<and>
      relocated L d hA' hB'" if "hA' = hA" "m = JSRecord [] None"
    using that rel by simp
  have merged: "\<exists>hB'. (case map_heap g hB (map t xs) of Inl e \<Rightarrow> Inl e
                        | Inr (h1, flats) \<Rightarrow> mergeSchemas h1 flats) =
                   Inr (hB', relocate_record L d m) \<and> relocated L d hA' hB'"
    if step: "\<And>hA hB x hA' y. relocated L d hA hB \<Longrightarrow> f hA x = Inr (hA', y) \<Longrightarrow>
        \<exists>hB'. g hB (t x) = Inr (hB', relocate_record L d y) \<and> relocated L d hA' hB'"
      and r: "(case map_heap f hA xs of Inl e \<Rightarrow> Inl e
               | Inr (h1, flats) \<Rightarrow> mergeSchemas h1 flats) = Inr (hA', m)"
    for f g :: "heap \<Rightarrow> 'x \<Rightarrow> failure + heap \<times> jsrecord" and t xs
  proof -
    from r obtain h1 flats where mh: "map_heap f hA xs = Inr (h1, flats)"
      and mg: "mergeSchemas h1 flats = Inr (hA', m)" by (auto split: sum.splits)
    have "\<exists>hB'. map_heap g hB (map t xs) = Inr (hB', map (relocate_record L d) flats) \<and>
           relocated L d h1 hB'"
    proof (rule map_heap_relocate[OF _ rel mh])
      fix hA hB x hA' y
      assume "relocated L d hA hB" "f hA x = Inr (hA', y)"
      then show "\<exists>hB'. g hB (t x) = Inr (hB', relocate_record L d y) \<and> relocated L d hA' hB'"
        by (rule step)
    qed
    then obtain hB1 where
      mh': "map_heap g hB (map t xs) = Inr (hB1, map (relocate_record L d) flats)"
      and rel1: "relocated L d h1 hB1" by blast
    from mergeSchemas_relocate[OF rel1 mg] mh' show ?thesis by simp
  qed
  show "\<exists>hB'. dispatch rec hB (relocate L d s) p = Inr (hB', relocate_record L d m) \<and>
          relocated L d hA' hB'"
  proof (cases "deref hA s")
    case None
    with run dB empty show ?thesis by (simp add: dispatch_def)
  next
    case (Some z)
    show ?thesis
    proof (cases z)
      case (ZodArray e)
      with Some run have "with_child rec hA (p @ ''[]'') e = Inr (hA', m)" by (simp add: dispatch_def)
      from with_child_relocate[OF eq rel this] Some ZodArray dB show ?thesis
        by (simp add: dispatch_def)
    next
      case (ZodTuple es)
      have step: "\<exists>hB'. (case apsnd (relocate L d) x of (index, element) \<Rightarrow>
              with_child rec hB (tuple_key p index) element) = Inr (hB', relocate_record L d y) \<and>
            relocated L d hA' hB'"
        if "relocated L d hA hB"
          "(case x of (index, element) \<Rightarrow> with_child rec hA (tuple_key p index) element) = Inr (hA', y)"
        for hA hB x hA' y
        using with_child_relocate[OF eq that(1), of "tuple_key p (fst x)" "snd x" hA' y] that(2)
        by (cases x) simp
      from Some ZodTuple run have "(case map_heap
            (\<lambda>h' (index, element). with_child rec h' (tuple_key p index) element) hA (enumerate 0 es) of
            Inl e \<Rightarrow> Inl e | Inr (h1, flats) \<Rightarrow> mergeSchemas h1 flats) = Inr (hA', m)"
        by (simp add: dispatch_def)
      from merged[of "\<lambda>h' (index, element). with_child rec h' (tuple_key p index) element"
          "\<lambda>h' (index, element). with_child rec h' (tuple_key p index) element"
          "apsnd (relocate L d)", OF step this]
      show ?thesis using Some ZodTuple dB by (simp add: dispatch_def enumerate_apsnd)
    next
      case (ZodObject shape)
      have step: "\<exists>hB'. (case apsnd (relocate L d) x of (key, field) \<Rightarrow>
              with_child rec hB (object_key p key) field) = Inr (hB', relocate_record L d y) \<and>
            relocated L d hA' hB'"
        if "relocated L d hA hB"
          "(case x of (key, field) \<Rightarrow> with_child rec hA (object_key p key) field) = Inr (hA', y)"
        for hA hB x hA' y
        using with_child_relocate[OF eq that(1), of "object_key p (fst x)" "snd x" hA' y] that(2)
        by (cases x) simp
      from Some ZodObject run have "(case map_heap
            (\<lambda>h' (key, field). with_child rec h' (object_key p key) field) hA shape of
            Inl e \<Rightarrow> Inl e | Inr (h1, flats) \<Rightarrow> mergeSchemas h1 flats) = Inr (hA', m)"
        by (simp add: dispatch_def)
      from merged[of "\<lambda>h' (key, field). with_child rec h' (object_key p key) field"
          "\<lambda>h' (key, field). with_child rec h' (object_key p key) field"
          "apsnd (relocate L d)", OF step this]
      show ?thesis using Some ZodObject dB by (simp add: dispatch_def)
    next
      case (ZodUnion options)
      have step: "\<exists>hB'. rec hB (relocate L d x) p = Inr (hB', relocate_record L d y) \<and>
            relocated L d hA' hB'"
        if "relocated L d hA hB" "rec hA x p = Inr (hA', y)" for hA hB x hA' y
        using equivariantD[OF eq that] .
      from Some ZodUnion run have "(case map_heap (\<lambda>h' option. rec h' option p) hA options of
            Inl e \<Rightarrow> Inl e | Inr (h1, flats) \<Rightarrow> mergeSchemas h1 flats) = Inr (hA', m)"
        by (simp add: dispatch_def)
      from merged[of "\<lambda>h' option. rec h' option p" "\<lambda>h' option. rec h' option p" "relocate L d",
          OF step this]
      show ?thesis using Some ZodUnion dB by (simp add: dispatch_def)
    next
      case (ZodOptional i)
      with Some run dB empty show ?thesis by (simp add: dispatch_def)
    next
      case (ZodDefault i)
      with Some run dB empty show ?thesis by (simp add: dispatch_def)
    next
      case (ZodNullable i)
      with Some run dB empty show ?thesis by (simp add: dispatch_def)
    next
      case (ZodLeaf kind)
      with Some run dB empty show ?thesis by (simp add: dispatch_def)
    qed
  qed
qed

lemma flattenSchema_relocate: "equivariant L d (flattenSchema n)"
proof (induction n)
  case 0
  then show ?case by (simp add: equivariant_def)
next
  case (Suc n)
  show ?case
    unfolding equivariant_def
  proof (intro allI impI)
    fix hA hB s p hA' m
    assume rel: "relocated L d hA hB" and run: "flattenSchema (Suc n) hA s p = Inr (hA', m)"
    from run obtain u h1 m1 where u: "unwrapSchema n hA s = Inr u"
      and dp: "dispatch (flattenSchema n) hA u p = Inr (h1, m1)"
      and mg: "mergeSchemas h1 [m1] = Inr (hA', m)"
      by (auto simp: flattenSchema_dispatch split: sum.splits simp del: flattenSchema.simps)
    from unwrapSchema_relocate[OF rel u]
    have u': "unwrapSchema n hB (relocate L d s) = Inr (relocate L d u)" .
    from equivariantD[OF dispatch_relocate[OF Suc] rel dp] obtain hB1 where
      dp': "dispatch (flattenSchema n) hB (relocate L d u) p = Inr (hB1, relocate_record L d m1)"
      and rel1: "relocated L d h1 hB1" by blast
    from mergeSchemas_relocate[OF rel1 mg] obtain hB' where
      "mergeSchemas hB1 [relocate_record L d m1] = Inr (hB', relocate_record L d m)"
      "relocated L d hA' hB'" by auto
    with u' dp' show "\<exists>hB'. flattenSchema (Suc n) hB (relocate L d s) p =
        Inr (hB', relocate_record L d m) \<and> relocated L d hA' hB'"
      by (simp add: flattenSchema_dispatch del: flattenSchema.simps)
  qed
qed

text \<open>On a closed heap, the objects allocated later are the only ones that move.\<close>

lemma closedD: "closed h \<Longrightarrow> deref h r = Some z \<Longrightarrow> c \<in> set (children z) \<Longrightarrow> allocated h c"
  by (auto simp: closed_def deref_def split: ref.splits if_splits)

lemma relocate_zod_closed:
  assumes "\<forall>c \<in> set (children z). allocated h c"
  shows "relocate_zod (length h) d z = z"
proof -
  have "map (relocate (length h) d) cs = cs" if "\<forall>c \<in> set cs. allocated h c" for cs
    using that by (induction cs) (simp_all add: relocate_allocated)
  moreover have "map (apsnd (relocate (length h) d)) shape = shape"
    if "\<forall>c \<in> set (map snd shape). allocated h c" for shape :: "(string \<times> ref) list"
    using that by (induction shape) (auto simp: relocate_allocated)
  ultimately show ?thesis using assms
    by (cases z) (simp_all add: children_def relocate_allocated)
qed

lemma closed_relocated:
  assumes "closed h"
  shows "relocated (length h) (length us) h (h @ us)"
  unfolding relocated_def
proof (intro conjI allI)
  fix r
  show "deref (h @ us) (relocate (length h) (length us) r) =
          map_option (relocate_zod (length h) (length us)) (deref h r)"
  proof (cases "deref h r")
    case None
    then show ?thesis by (cases r) (auto simp: deref_def relocate_def split: if_splits)
  next
    case (Some z)
    from closedD[OF assms Some] have "relocate_zod (length h) (length us) z = z"
      by (intro relocate_zod_closed) blast
    moreover from Some have "relocate (length h) (length us) r = r"
      by (intro relocate_allocated) (rule deref_allocated)
    ultimately show ?thesis using deref_extends[OF extends_append Some, of us] Some by simp
  qed
qed simp_all

subsection \<open>The values of a map are objects of the heap\<close>

lemma sound_grows: "sound h m \<Longrightarrow> grows h h' \<Longrightarrow> sound h' m"
  by (auto simp: sound_def dest: allocated_extends[OF grows_extends])

lemma set_update_subset: "set (AList.update k v xs) \<subseteq> insert (k, v) (set xs)"
  by (induction xs) auto

lemma set_assign_subset: "set (assign props k v) \<subseteq> insert (k, v) (set props)"
proof (cases "map_of props k")
  case None
  then have "k \<notin> fst ` set props" by (simp add: map_of_eq_None_iff)
  from set_assign_absent[OF this] show ?thesis by simp
next
  case (Some old)
  then show ?thesis by (simp add: assign_present set_update_subset)
qed

lemma merge_entry_sound:
  assumes s: "sound h acc" and v: "allocated h v"
    and run: "merge_entry (h, acc) (k, v) = Inr (h', acc')"
  shows "sound h' acc'"
  using run
proof (cases rule: merge_entry_cases)
  case proto
  with s show ?thesis by (auto simp: sound_def dest: allocated_extends[OF extends_append])
next
  case keep
  with s v set_assign_subset[of "own acc" k v] show ?thesis by (auto simp: sound_def)
next
  case (union options)
  have "allocated h' (Addr (length h))" by (simp add: union(1) allocated_def)
  moreover from s have "\<forall>x \<in> snd ` set (own acc). allocated h' x"
    unfolding union(1) by (auto simp: sound_def dest: allocated_extends[OF extends_append])
  ultimately show ?thesis
    using set_assign_subset[of "own acc" k "Addr (length h)"] union(2)
    by (auto simp: sound_def)
qed

lemma reduce_merge_sound:
  assumes "sound h acc" "\<forall>v \<in> snd ` set xs. allocated h v" "tidy (own acc)"
    and "reduce merge_entry (h, acc) xs = Inr (h', acc')"
  shows "sound h' acc'"
  using assms
proof (induction xs arbitrary: h acc)
  case Nil
  then show ?case by simp
next
  case (Cons x xs)
  obtain k v where x: "x = (k, v)" by (cases x)
  from Cons.prems(4) x obtain h1 acc1 where
    s: "merge_entry (h, acc) (k, v) = Inr (h1, acc1)"
    and r: "reduce merge_entry (h1, acc1) xs = Inr (h', acc')"
    by (auto split: sum.splits)
  from merge_entry_basic(1,2)[OF s Cons.prems(3)] have g: "grows h h1" and t: "tidy (own acc1)" .
  from Cons.prems(2) x have "allocated h v" by simp
  from merge_entry_sound[OF Cons.prems(1) this s] have s1: "sound h1 acc1" .
  from Cons.prems(2) g have "\<forall>v \<in> snd ` set xs. allocated h1 v"
    by (auto dest: allocated_extends[OF grows_extends])
  from Cons.IH[OF s1 this t r] show ?case .
qed

lemma mergeSchemas_sound:
  assumes "\<forall>x \<in> set ms. sound h x" "mergeSchemas h ms = Inr (h', m)"
  shows "sound h' m"
proof -
  from assms(1) have "\<forall>v \<in> snd ` set (concat (map own ms)). allocated h v"
    by (auto simp: sound_def)
  moreover have "sound h (JSRecord [] None)" by (simp add: sound_def)
  ultimately show ?thesis
    using reduce_merge_sound[of h "JSRecord [] None" "concat (map own ms)" h' m] assms(2)
    by (simp add: mergeSchemas_concat)
qed

lemma sound_onD:
  assumes "sound_on h0 rec" "grows h0 h" "allocated h0 s" "rec h s p = Inr (h', m)"
  shows "sound h' m"
  using assms unfolding sound_on_def by blast

lemma with_child_sound:
  assumes so: "sound_on h0 rec" and al: "only_allocates rec" and g: "grows h0 h"
    and v: "allocated h0 v" and run: "with_child rec h k v = Inr (h', m)"
  shows "sound h' m"
proof -
  from run obtain h1 sub where r: "rec h v k = Inr (h1, sub)"
    and mg: "mergeSchemas h1 [JSRecord [(k, v)] None, sub] = Inr (h', m)"
    by (auto simp: with_child_def split: sum.splits)
  from sound_onD[OF so g v r] have s: "sound h1 sub" .
  from only_allocatesD[OF al r] g have "grows h0 h1" by (auto intro: grows_trans)
  with v have "allocated h1 v" by (auto dest: allocated_extends[OF grows_extends])
  then have "sound h1 (JSRecord [(k, v)] None)" by (simp add: sound_def)
  with s mg show ?thesis by (intro mergeSchemas_sound[OF _ mg]) simp
qed

lemma map_heap_sound:
  assumes step: "\<And>ha x hb y. grows h0 ha \<Longrightarrow> x \<in> set xs \<Longrightarrow> f ha x = Inr (hb, y) \<Longrightarrow>
      sound hb y \<and> grows ha hb"
    and g: "grows h0 h" and run: "map_heap f h xs = Inr (h', ys)"
  shows "(\<forall>y \<in> set ys. sound h' y) \<and> grows h h'"
  using assms
proof (induction xs arbitrary: h ys)
  case Nil
  then show ?case by (simp add: grows_refl)
next
  case (Cons x xs)
  from Cons.prems(3) obtain h1 y zs where
    fx: "f h x = Inr (h1, y)" and rest: "map_heap f h1 xs = Inr (h', zs)" and ys: "ys = y # zs"
    by (auto split: sum.splits prod.splits)
  from Cons.prems(1)[OF Cons.prems(2) _ fx] have y: "sound h1 y" "grows h h1" by simp_all
  from Cons.prems(2) y(2) have g1: "grows h0 h1" by (rule grows_trans)
  have "(\<forall>y \<in> set zs. sound h' y) \<and> grows h1 h'"
  proof (rule Cons.IH[OF _ g1 rest])
    fix ha x' hb y'
    assume "grows h0 ha" "x' \<in> set xs" "f ha x' = Inr (hb, y')"
    then show "sound hb y' \<and> grows ha hb" using Cons.prems(1)[of ha x' hb y'] by simp
  qed
  with y show ?case by (auto simp: ys intro: sound_grows grows_trans)
qed

lemma unwrapSchema_allocated:
  assumes c: "closed h0" and g: "grows h0 h"
  shows "allocated h0 s \<Longrightarrow> unwrapSchema n h s = Inr u \<Longrightarrow> allocated h0 u"
proof (induction n arbitrary: s)
  case 0
  then show ?case by simp
next
  case (Suc n)
  from allocated_deref[OF Suc.prems(1)] obtain z where z: "deref h0 s = Some z" ..
  from deref_grows[OF g z] have zh: "deref h s = Some z" .
  have inner: "allocated h0 i" if "i \<in> set (children z)" for i
    using closedD[OF c z that] .
  from Suc.prems(2) zh Suc.IH[OF inner] Suc.prems(1) show ?case
    by (cases z) (auto simp: children_def)
qed

lemma dispatch_sound:
  assumes so: "sound_on h0 rec" and al: "only_allocates rec" and c: "closed h0"
  shows "sound_on h0 (dispatch rec)"
  unfolding sound_on_def
proof (intro allI impI)
  fix h s p h' m
  assume g: "grows h0 h" and s: "allocated h0 s" and run: "dispatch rec h s p = Inr (h', m)"
  from allocated_deref[OF s] obtain z where z: "deref h0 s = Some z" ..
  from deref_grows[OF g z] have zh: "deref h s = Some z" .
  have kid: "allocated h0 x" if "x \<in> set (children z)" for x
    using closedD[OF c z that] .
  have empty: "sound h (JSRecord [] None)" by (simp add: sound_def)
  have merged: "sound h' m"
    if step: "\<And>ha x hb y. grows h0 ha \<Longrightarrow> x \<in> set xs \<Longrightarrow> f ha x = Inr (hb, y) \<Longrightarrow>
        sound hb y \<and> grows ha hb"
      and r: "(case map_heap f h xs of Inl e \<Rightarrow> Inl e
               | Inr (h1, flats) \<Rightarrow> mergeSchemas h1 flats) = Inr (h', m)"
    for f :: "heap \<Rightarrow> 'x \<Rightarrow> failure + heap \<times> jsrecord" and xs
  proof -
    from r obtain h1 flats where mh: "map_heap f h xs = Inr (h1, flats)"
      and mg: "mergeSchemas h1 flats = Inr (h', m)" by (auto split: sum.splits)
    have "(\<forall>y \<in> set flats. sound h1 y) \<and> grows h h1"
    proof (rule map_heap_sound[OF _ g mh])
      fix ha x hb y
      assume "grows h0 ha" "x \<in> set xs" "f ha x = Inr (hb, y)"
      then show "sound hb y \<and> grows ha hb" by (rule step)
    qed
    then show ?thesis using mergeSchemas_sound[OF _ mg] by blast
  qed
  show "sound h' m"
  proof (cases z)
    case (ZodArray e)
    with zh run have w: "with_child rec h (p @ ''[]'') e = Inr (h', m)" by (simp add: dispatch_def)
    from kid[of e] ZodArray have "allocated h0 e" by (simp add: children_def)
    from with_child_sound[OF so al g this w] show ?thesis .
  next
    case (ZodTuple es)
    have step: "sound hb y \<and> grows ha hb"
      if "grows h0 ha" "x \<in> set (enumerate 0 es)"
        "(case x of (index, element) \<Rightarrow> with_child rec ha (tuple_key p index) element) = Inr (hb, y)"
      for ha x hb y
    proof -
      from that(2) have "snd x \<in> set es" by (rule enumerate_member)
      with kid[of "snd x"] ZodTuple have a: "allocated h0 (snd x)" by (simp add: children_def)
      from that(3) have w: "with_child rec ha (tuple_key p (fst x)) (snd x) = Inr (hb, y)"
        by (cases x) simp
      from with_child_sound[OF so al that(1) a w] with_child_grows[OF al w] show ?thesis by simp
    qed
    from zh ZodTuple run have "(case map_heap
          (\<lambda>h' (index, element). with_child rec h' (tuple_key p index) element) h (enumerate 0 es) of
          Inl e \<Rightarrow> Inl e | Inr (h1, flats) \<Rightarrow> mergeSchemas h1 flats) = Inr (h', m)"
      by (simp add: dispatch_def)
    from merged[of "enumerate 0 es"
        "\<lambda>h' (index, element). with_child rec h' (tuple_key p index) element", OF step this]
    show ?thesis .
  next
    case (ZodObject shape)
    have step: "sound hb y \<and> grows ha hb"
      if "grows h0 ha" "x \<in> set shape"
        "(case x of (key, field) \<Rightarrow> with_child rec ha (object_key p key) field) = Inr (hb, y)"
      for ha x hb y
    proof -
      from that(2) have "snd x \<in> set (map snd shape)" by simp
      with kid[of "snd x"] ZodObject have a: "allocated h0 (snd x)" by (simp add: children_def)
      from that(3) have w: "with_child rec ha (object_key p (fst x)) (snd x) = Inr (hb, y)"
        by (cases x) simp
      from with_child_sound[OF so al that(1) a w] with_child_grows[OF al w] show ?thesis by simp
    qed
    from zh ZodObject run have "(case map_heap
          (\<lambda>h' (key, field). with_child rec h' (object_key p key) field) h shape of
          Inl e \<Rightarrow> Inl e | Inr (h1, flats) \<Rightarrow> mergeSchemas h1 flats) = Inr (h', m)"
      by (simp add: dispatch_def)
    from merged[of shape "\<lambda>h' (key, field). with_child rec h' (object_key p key) field", OF step this]
    show ?thesis .
  next
    case (ZodUnion options)
    have step: "sound hb y \<and> grows ha hb"
      if "grows h0 ha" "x \<in> set options" "rec ha x p = Inr (hb, y)" for ha x hb y
    proof -
      from kid[of x] that(2) ZodUnion have a: "allocated h0 x" by (simp add: children_def)
      from sound_onD[OF so that(1) a that(3)] only_allocatesD[OF al that(3)] show ?thesis by simp
    qed
    from zh ZodUnion run have "(case map_heap (\<lambda>h' option. rec h' option p) h options of
          Inl e \<Rightarrow> Inl e | Inr (h1, flats) \<Rightarrow> mergeSchemas h1 flats) = Inr (h', m)"
      by (simp add: dispatch_def)
    from merged[of options "\<lambda>h' option. rec h' option p", OF step this] show ?thesis .
  next
    case (ZodOptional i)
    with zh run empty show ?thesis by (auto simp: dispatch_def)
  next
    case (ZodDefault i)
    with zh run empty show ?thesis by (auto simp: dispatch_def)
  next
    case (ZodNullable i)
    with zh run empty show ?thesis by (auto simp: dispatch_def)
  next
    case (ZodLeaf kind)
    with zh run empty show ?thesis by (auto simp: dispatch_def)
  qed
qed

lemma flattenSchema_sound:
  assumes c: "closed h0"
  shows "sound_on h0 (flattenSchema n)"
proof (induction n)
  case 0
  then show ?case by (simp add: sound_on_def)
next
  case (Suc n)
  show ?case
    unfolding sound_on_def
  proof (intro allI impI)
    fix h s p h' m
    assume g: "grows h0 h" and s: "allocated h0 s" and run: "flattenSchema (Suc n) h s p = Inr (h', m)"
    from run obtain u h1 m1 where u: "unwrapSchema n h s = Inr u"
      and dp: "dispatch (flattenSchema n) h u p = Inr (h1, m1)"
      and mg: "mergeSchemas h1 [m1] = Inr (h', m)"
      by (auto simp: flattenSchema_dispatch split: sum.splits simp del: flattenSchema.simps)
    from unwrapSchema_allocated[OF c g s u] have "allocated h0 u" .
    from sound_onD[OF dispatch_sound[OF Suc flattenSchema_only_allocates c] g this dp]
    have "sound h1 m1" .
    then show "sound h' m" by (intro mergeSchemas_sound[OF _ mg]) simp
  qed
qed

text \<open>The objects allocated by a run are unions.\<close>

lemma grows_union:
  assumes "grows h h'" "length h \<le> a" "a < length h'"
  shows "\<exists>options. deref h' (Addr a) = Some (ZodUnion options)"
proof -
  from assms(1) obtain us where us: "h' = h @ us" "unions_only us" by (auto simp: grows_def)
  with assms(2,3) have "h' ! a \<in> set us" by (auto simp: nth_append)
  with us(2) obtain options where "h' ! a = ZodUnion options" by (auto simp: unions_only_def)
  with assms(3) show ?thesis by (simp add: deref_def)
qed

section \<open>The claims\<close>

text \<open>
  C1 (as stated: a path that is not a key makes \<open>resolve\<close> fail with PathNotFound).
  The code is the bare property read \<open>flat[key]\<close>: on the blog schema the path
  \<open>posts.title\<close> is not a key of the flattened map, and \<open>resolve\<close> returns
  \<open>undefined\<close>; nothing is raised.
\<close>

theorem resolve_returns_undefined:
  "flatten 5 blog_heap (Addr 4) =
     Inr (blog_heap,
          JSRecord [(''name'', Addr 0), (''posts'', Addr 3), (''posts[]'', Addr 2),
                    (''posts[].title'', Addr 1)] None) \<and>
   resolve 5 blog_heap (Addr 4) ''posts.title'' = Inr (blog_heap, Undefined)"
proof -
  have fl: "flatten 5 blog_heap (Addr 4) =
     Inr (blog_heap,
          JSRecord [(''name'', Addr 0), (''posts'', Addr 3), (''posts[]'', Addr 2),
                    (''posts[].title'', Addr 1)] None)"
    by code_simp
  then show ?thesis by (simp add: resolve_def property_def object_prototype_keys_def)
qed

text \<open>
  C1 (amended). Whenever \<open>flatten\<close> returns a map and the path is not one of its keys,
  \<open>resolve\<close> returns as well, with the heap \<open>flatten\<close> left: its value is
  \<open>undefined\<close>, or the inherited member when the path names a member of
  \<open>Object.prototype\<close>. No error is raised for an absent path.
\<close>

theorem resolve_absent_path:
  assumes "flatten n h schema = Inr (h', fl)" and "path \<notin> fst ` set (own fl)"
  shows "resolve n h schema path =
           Inr (h', if path \<in> set object_prototype_keys then Intrinsic path else Undefined)"
proof -
  from assms(1) have "proto fl = None"
    unfolding flatten_def by (rule flattenSchema_record(2))
  with assms show ?thesis
    by (simp add: resolve_def property_def map_of_eq_None_iff[symmetric])
qed

theorem resolve_absent_path_witness:
  "resolve 5 blog_heap (Addr 4) ''toString'' = Inr (blog_heap, Intrinsic ''toString'') \<and>
   resolve 5 blog_heap (Addr 4) ''posts.title'' = Inr (blog_heap, Undefined)"
proof -
  have fl: "flatten 5 blog_heap (Addr 4) =
     Inr (blog_heap,
          JSRecord [(''name'', Addr 0), (''posts'', Addr 3), (''posts[]'', Addr 2),
                    (''posts[].title'', Addr 1)] None)"
    by code_simp
  from resolve_absent_path[OF fl, of "''toString''"] resolve_absent_path[OF fl, of "''posts.title''"]
  show ?thesis by (simp add: object_prototype_keys_def)
qed

text \<open>
  C2 (as stated: a cyclic schema graph makes \<open>flatten\<close> fail with CyclicSchema instead
  of recursing without bound). The code keeps no set of visited schemas. On the object
  whose field \<open>self\<close> is the object itself, \<open>flatten\<close> overflows the stack however
  deep the stack is.
\<close>

theorem cycle_overflows: "overflows loop_heap (Addr 0)"
proof -
  have "child loop_heap (Addr 0) (Addr 0)"
    by (simp add: child_def deref_def loop_heap_def children_def)
  then have "cyclic_from loop_heap (Addr 0)"
    unfolding cyclic_from_def by blast
  then show ?thesis
    unfolding overflows_def by (blast intro: flatten_cyclic)
qed

text \<open>
  C2 (amended). There is no CyclicSchema error and no record of the schemas visited: the
  only way \<open>flatten\<close> ends without a map is the stack overflow. When a cycle of the
  schema graph can be reached from the root, \<open>flatten\<close> overflows the stack, whatever
  the depth of the stack. On an acyclic schema graph (the children of every schema are
  schemas of the heap of smaller rank, for some ranking of the references) \<open>flatten\<close>
  terminates: with a stack two deeper than the rank of the root, or deeper, it returns a
  map.
\<close>

theorem flatten_acyclic_terminates:
  "(flatten n h schema = Inl e \<longrightarrow> e = StackOverflow) \<and>
   (cyclic_from h schema \<longrightarrow> overflows h schema) \<and>
   (acyclic_by h rank \<longrightarrow>
      (\<forall>k. \<exists>h' fl. flatten (rank schema + 2 + k) h schema = Inr (h', fl)))"
proof (intro conjI impI allI)
  assume "flatten n h schema = Inl e"
  then show "e = StackOverflow"
    unfolding flatten_def by (rule flattenSchema_decided)
next
  assume "cyclic_from h schema"
  then show "overflows h schema"
    unfolding overflows_def by (blast intro: flatten_cyclic)
next
  fix k
  assume "acyclic_by h rank"
  then show "\<exists>h' fl. flatten (rank schema + 2 + k) h schema = Inr (h', fl)"
    by (rule flatten_acyclic_returns)
qed

theorem flatten_acyclic_terminates_witness:
  "overflows loop_heap (Addr 0) \<and>
   (\<exists>h' fl. flatten (4 + 2 + 0) blog_heap (Addr 4) = Inr (h', fl))"
proof -
  have "child loop_heap (Addr 0) (Addr 0)"
    by (simp add: child_def deref_def loop_heap_def children_def)
  then have c: "cyclic_from loop_heap (Addr 0)"
    unfolding cyclic_from_def by blast
  have a: "acyclic_by blog_heap (\<lambda>r. case r of Addr a \<Rightarrow> a | _ \<Rightarrow> 0)"
    by (simp add: acyclic_by_def blog_heap_def children_def allocated_def)
  from flatten_acyclic_terminates[of 0 loop_heap "Addr 0" StackOverflow "\<lambda>r. 0"] c
  have "overflows loop_heap (Addr 0)" by blast
  moreover
  from flatten_acyclic_terminates[of 0 blog_heap "Addr 4" StackOverflow
      "\<lambda>r. case r of Addr a \<Rightarrow> a | _ \<Rightarrow> 0"] a
  have "\<forall>k. \<exists>h' fl. flatten ((case Addr 4 of Addr a \<Rightarrow> a | _ \<Rightarrow> 0) + 2 + k) blog_heap (Addr 4) = Inr (h', fl)"
    by blast
  then have "\<exists>h' fl. flatten ((case Addr 4 of Addr a \<Rightarrow> a | _ \<Rightarrow> 0) + 2 + 0) blog_heap (Addr 4) = Inr (h', fl)"
    by (rule spec)
  then have "\<exists>h' fl. flatten (4 + 2 + 0) blog_heap (Addr 4) = Inr (h', fl)"
    by simp
  ultimately show ?thesis by blast
qed

text \<open>
  C3 (as stated: no value of the output is a union with a union among its options).
  Merging \<open>{x: String}\<close> with \<open>{x: Union[Number, Boolean]}\<close> gives for \<open>x\<close> the
  new union 4 with the options 0 and 3, and 3 is itself a union: the value folded in is
  not spliced. \<open>flatten\<close> reaches this merge on the union of the two objects that
  declare \<open>x\<close> so: there \<open>x\<close> holds the new union 7 with the options 0 and 3.
\<close>

theorem merge_nests_later_union:
  "mergeSchemas nested_heap [JSRecord [(''x'', Addr 0)] None, JSRecord [(''x'', Addr 3)] None] =
     Inr (nested_heap @ [ZodUnion [Addr 0, Addr 3]], JSRecord [(''x'', Addr 4)] None) \<and>
   deref (nested_heap @ [ZodUnion [Addr 0, Addr 3]]) (Addr 4) = Some (ZodUnion [Addr 0, Addr 3]) \<and>
   deref (nested_heap @ [ZodUnion [Addr 0, Addr 3]]) (Addr 3) = Some (ZodUnion [Addr 1, Addr 2]) \<and>
   flatten 5 later_union_heap (Addr 6) =
     Inr (later_union_heap @ [ZodUnion [Addr 0, Addr 3]], JSRecord [(''x'', Addr 7)] None) \<and>
   deref (later_union_heap @ [ZodUnion [Addr 0, Addr 3]]) (Addr 3) = Some (ZodUnion [Addr 1, Addr 2])"
proof -
  have "mergeSchemas nested_heap [JSRecord [(''x'', Addr 0)] None, JSRecord [(''x'', Addr 3)] None] =
     Inr (nested_heap @ [ZodUnion [Addr 0, Addr 3]], JSRecord [(''x'', Addr 4)] None)"
    by code_simp
  moreover have "flatten 5 later_union_heap (Addr 6) =
     Inr (later_union_heap @ [ZodUnion [Addr 0, Addr 3]], JSRecord [(''x'', Addr 7)] None)"
    by code_simp
  ultimately show ?thesis
    by (simp add: deref_def nested_heap_def later_union_heap_def)
qed

text \<open>
  C3 (amended). Let every branch map have distinct keys, none of them the name of a
  member of \<open>Object.prototype\<close>, and values that are objects of the heap. Then
  \<open>mergeSchemas\<close> returns a record with the prototype of a literal, only allocating;
  the keys of the output are the keys of the branches; and for every key (\<open>folded\<close>): a
  key of no branch is absent, a key of one branch keeps the schema of that branch, and a
  key of \<open>k \<ge> 2\<close> branches maps to a newly allocated union whose options are the value
  of the first branch, replaced by its own options when it is a union (\<open>splice\<close>),
  followed by the values of the other branches in branch order, each as one option, also
  when it is a union.
\<close>

theorem merge_values:
  assumes "\<forall>m \<in> set ms. distinct (map fst (own m))"
    and "\<forall>m \<in> set ms. \<forall>e \<in> set (own m). allocated h (snd e)"
    and "\<forall>m \<in> set ms. fst ` set (own m) \<inter> set object_prototype_keys = {}"
  shows "\<exists>h' out. mergeSchemas h ms = Inr (h', out) \<and> extends h h' \<and> proto out = None \<and>
           fst ` set (own out) = (\<Union>m \<in> set ms. fst ` set (own m)) \<and>
           (\<forall>k. folded h (branch_values ms k) h' (map_of (own out) k))"
proof -
  from assms(3) have "\<forall>m \<in> set ms. own_keys m \<inter> set object_prototype_keys = {}"
    by (simp add: own_keys_def)
  from mergeSchemas_merged[OF assms(2) this] obtain h' out where
    run: "mergeSchemas h ms = Inr (h', out)" and m: "merged h (concat (map own ms)) h' out"
    by blast
  from m assms(1) have
    "extends h h'" "proto out = None" "fst ` set (own out) = (\<Union>m \<in> set ms. fst ` set (own m))"
    "\<forall>k. folded h (branch_values ms k) h' (map_of (own out) k)"
    by (auto simp: merged_def occurrences_branch_values own_keys_def)
  with run show ?thesis by blast
qed

theorem merge_values_witness:
  "\<exists>h' out. mergeSchemas nested_heap
        [JSRecord [(''x'', Addr 3)] None, JSRecord [(''x'', Addr 0), (''y'', Addr 1)] None,
         JSRecord [(''x'', Addr 2)] None] = Inr (h', out) \<and>
     extends nested_heap h' \<and> proto out = None \<and>
     fst ` set (own out) = {''x'', ''y''} \<and>
     folded nested_heap [Addr 3, Addr 0, Addr 2] h' (map_of (own out) ''x'') \<and>
     folded nested_heap [Addr 1] h' (map_of (own out) ''y'')"
proof -
  let ?ms = "[JSRecord [(''x'', Addr 3)] None, JSRecord [(''x'', Addr 0), (''y'', Addr 1)] None,
         JSRecord [(''x'', Addr 2)] None]"
  have "\<forall>m \<in> set ?ms. distinct (map fst (own m))" by simp
  moreover have "\<forall>m \<in> set ?ms. \<forall>e \<in> set (own m). allocated nested_heap (snd e)"
    by (simp add: nested_heap_def allocated_def)
  moreover have "\<forall>m \<in> set ?ms. fst ` set (own m) \<inter> set object_prototype_keys = {}"
    by (simp add: object_prototype_keys_def)
  ultimately obtain h' out where
    r: "mergeSchemas nested_heap ?ms = Inr (h', out)" "extends nested_heap h'" "proto out = None"
      "fst ` set (own out) = (\<Union>m \<in> set ?ms. fst ` set (own m))"
      "\<forall>k. folded nested_heap (branch_values ?ms k) h' (map_of (own out) k)"
    using merge_values[of ?ms nested_heap] by blast
  from r(4) have "fst ` set (own out) = {''x'', ''y''}" by auto
  moreover from r(5) have "folded nested_heap (branch_values ?ms ''x'') h' (map_of (own out) ''x'')"
    "folded nested_heap (branch_values ?ms ''y'') h' (map_of (own out) ''y'')" by blast+
  then have "folded nested_heap [Addr 3, Addr 0, Addr 2] h' (map_of (own out) ''x'')"
    "folded nested_heap [Addr 1] h' (map_of (own out) ''y'')"
    by (simp_all add: branch_values_def)
  ultimately show ?thesis using r(1,2,3) by blast
qed




text \<open>
  C7. For \<open>S = Object({name: String, posts: Array(Object({title: String}))})\<close>,
  with any stack depth of at least 5, \<open>flatten(S)\<close> returns the map with exactly the
  keys \<open>name\<close>, \<open>posts\<close>, \<open>posts[]\<close> and \<open>posts[].title\<close> (no entry for the
  root, fields joined with a dot, the array suffix appended without a separator), allocating
  nothing, and \<open>resolve(S, "posts[].title")\<close> returns address 1, the string schema
  that the field \<open>title\<close> holds.
\<close>

theorem blog_scenario:
  "flatten (5 + n) blog_heap (Addr 4) =
     Inr (blog_heap,
          JSRecord [(''name'', Addr 0), (''posts'', Addr 3), (''posts[]'', Addr 2),
                    (''posts[].title'', Addr 1)] None) \<and>
   resolve (5 + n) blog_heap (Addr 4) ''posts[].title'' = Inr (blog_heap, Addr 1) \<and>
   deref blog_heap (Addr 2) = Some (ZodObject [(''title'', Addr 1)]) \<and>
   deref blog_heap (Addr 1) = Some (ZodLeaf ''string'')"
proof -
  have "flatten 5 blog_heap (Addr 4) =
     Inr (blog_heap,
          JSRecord [(''name'', Addr 0), (''posts'', Addr 3), (''posts[]'', Addr 2),
                    (''posts[].title'', Addr 1)] None)"
    by code_simp
  then have fl: "flatten (5 + n) blog_heap (Addr 4) =
     Inr (blog_heap,
          JSRecord [(''name'', Addr 0), (''posts'', Addr 3), (''posts[]'', Addr 2),
                    (''posts[].title'', Addr 1)] None)"
    by (rule flatten_more)
  then have "resolve (5 + n) blog_heap (Addr 4) ''posts[].title'' = Inr (blog_heap, Addr 1)"
    by (simp add: resolve_def property_def)
  moreover have "deref blog_heap (Addr 2) = Some (ZodObject [(''title'', Addr 1)])"
    and "deref blog_heap (Addr 1) = Some (ZodLeaf ''string'')"
    by (simp_all add: deref_def blog_heap_def)
  ultimately show ?thesis using fl by simp
qed

text \<open>
  C8. For the union of the car object and the bike object, with any stack depth of at
  least 4, \<open>flatten(S)\<close> returns the map with exactly the keys \<open>type\<close>,
  \<open>doors\<close> and \<open>gears\<close> (no entry for the union itself);
  \<open>resolve(S, "type")\<close> is a newly allocated union (address 7) whose options are
  the literal of the car and the literal of the bike, in this order, and
  \<open>resolve(S, "doors")\<close> is address 1, the number schema of the first branch itself.
\<close>

theorem vehicle_scenario:
  "flatten (4 + n) vehicle_heap (Addr 6) =
     Inr (vehicle_heap @ [ZodUnion [Addr 0, Addr 3]],
          JSRecord [(''type'', Addr 7), (''doors'', Addr 1), (''gears'', Addr 4)] None) \<and>
   resolve (4 + n) vehicle_heap (Addr 6) ''type'' =
     Inr (vehicle_heap @ [ZodUnion [Addr 0, Addr 3]], Addr 7) \<and>
   deref (vehicle_heap @ [ZodUnion [Addr 0, Addr 3]]) (Addr 7) = Some (ZodUnion [Addr 0, Addr 3]) \<and>
   deref vehicle_heap (Addr 0) = Some (ZodLeaf ''literal car'') \<and>
   deref vehicle_heap (Addr 3) = Some (ZodLeaf ''literal bike'') \<and>
   resolve (4 + n) vehicle_heap (Addr 6) ''doors'' =
     Inr (vehicle_heap @ [ZodUnion [Addr 0, Addr 3]], Addr 1) \<and>
   deref vehicle_heap (Addr 2) = Some (ZodObject [(''type'', Addr 0), (''doors'', Addr 1)])"
proof -
  have "flatten 4 vehicle_heap (Addr 6) =
     Inr (vehicle_heap @ [ZodUnion [Addr 0, Addr 3]],
          JSRecord [(''type'', Addr 7), (''doors'', Addr 1), (''gears'', Addr 4)] None)"
    by code_simp
  then have fl: "flatten (4 + n) vehicle_heap (Addr 6) =
     Inr (vehicle_heap @ [ZodUnion [Addr 0, Addr 3]],
          JSRecord [(''type'', Addr 7), (''doors'', Addr 1), (''gears'', Addr 4)] None)"
    by (rule flatten_more)
  then have "resolve (4 + n) vehicle_heap (Addr 6) ''type'' =
      Inr (vehicle_heap @ [ZodUnion [Addr 0, Addr 3]], Addr 7)"
    and "resolve (4 + n) vehicle_heap (Addr 6) ''doors'' =
      Inr (vehicle_heap @ [ZodUnion [Addr 0, Addr 3]], Addr 1)"
    by (simp_all add: resolve_def property_def)
  moreover have "deref (vehicle_heap @ [ZodUnion [Addr 0, Addr 3]]) (Addr 7) = Some (ZodUnion [Addr 0, Addr 3])"
    and "deref vehicle_heap (Addr 0) = Some (ZodLeaf ''literal car'')"
    and "deref vehicle_heap (Addr 3) = Some (ZodLeaf ''literal bike'')"
    and "deref vehicle_heap (Addr 2) = Some (ZodObject [(''type'', Addr 0), (''doors'', Addr 1)])"
    by (simp_all add: deref_def vehicle_heap_def)
  ultimately show ?thesis using fl by simp
qed

text \<open>
  C5 (as stated: \<open>resolve(S, K)\<close> is the identical object as \<open>flatten(S)[K]\<close>, also for
  a synthetic union). \<open>resolve\<close> flattens again, and every flattening allocates its own
  unions: after \<open>flatten\<close> stored the union at address 7 under \<open>type\<close>, \<open>resolve\<close>
  returns the union at address 8, with the same options but another object.
\<close>

theorem resolve_allocates_new_union:
  "flatten 4 vehicle_heap (Addr 6) =
     Inr (vehicle_heap @ [ZodUnion [Addr 0, Addr 3]],
          JSRecord [(''type'', Addr 7), (''doors'', Addr 1), (''gears'', Addr 4)] None) \<and>
   resolve 4 (vehicle_heap @ [ZodUnion [Addr 0, Addr 3]]) (Addr 6) ''type'' =
     Inr (vehicle_heap @ [ZodUnion [Addr 0, Addr 3], ZodUnion [Addr 0, Addr 3]], Addr 8)"
  by code_simp

text \<open>
  C5 (amended). Let the heap be closed and \<open>S\<close> one of its schemas, and let
  \<open>flatten(S)\<close> return, having allocated \<open>d\<close> unions, a map that holds \<open>r\<close> under
  the key \<open>K\<close>. Then \<open>resolve(S, K)\<close>, called on the heap that \<open>flatten\<close> left,
  returns with the same stack, allocating \<open>d\<close> unions again. If \<open>r\<close> is a schema of the
  original graph, \<open>resolve\<close> returns \<open>r\<close>, the identical object. If not, \<open>r\<close> is a
  union that \<open>flatten\<close> allocated, at an address \<open>a\<close>, and \<open>resolve\<close> returns the
  union it allocated itself at the address \<open>a + d\<close>: another object, whose options are
  the options of \<open>r\<close>, one by one, the identical object for a schema of the original
  graph and the union \<open>d\<close> addresses further for a union that \<open>flatten\<close> allocated.
\<close>

theorem resolve_after_flatten:
  assumes "closed h" and "allocated h schema"
    and "flatten n h schema = Inr (h1, fl)" and "map_of (own fl) key = Some r"
    and "d = length h1 - length h"
  shows "\<exists>h2. resolve n h1 schema key = Inr (h2, relocate (length h) d r) \<and>
           grows h1 h2 \<and> length h2 = length h1 + d \<and>
           (allocated h r \<longrightarrow> relocate (length h) d r = r) \<and>
           (\<not> allocated h r \<longrightarrow>
              (\<exists>a options. r = Addr a \<and> length h \<le> a \<and> a < length h1 \<and>
                 relocate (length h) d r = Addr (a + d) \<and> length h1 \<le> a + d \<and>
                 deref h2 (Addr a) = Some (ZodUnion options) \<and>
                 deref h2 (Addr (a + d)) = Some (ZodUnion (map (relocate (length h) d) options))))"
proof -
  from assms(3) have run: "flattenSchema n h schema [] = Inr (h1, fl)" by (simp add: flatten_def)
  from only_allocatesD[OF flattenSchema_only_allocates run] have g1: "grows h h1" .
  then obtain us where us: "h1 = h @ us" by (auto simp: grows_def)
  with assms(5) have d: "d = length us" by simp
  from closed_relocated[OF assms(1), of us] have rel0: "relocated (length h) d h h1"
    by (simp add: us d)
  from equivariantD[OF flattenSchema_relocate rel0 run] relocate_allocated[OF assms(2)]
  obtain h2 where
    run2: "flattenSchema n h1 schema [] = Inr (h2, relocate_record (length h) d fl)"
    and rel: "relocated (length h) d h1 h2" by auto
  from only_allocatesD[OF flattenSchema_only_allocates run2] have g2: "grows h1 h2" .
  from run2 assms(4) have res: "resolve n h1 schema key = Inr (h2, relocate (length h) d r)"
    by (simp add: resolve_def flatten_def property_def map_of_apsnd)
  have orig: "relocate (length h) d r = r" if "allocated h r"
    using that by (rule relocate_allocated)
  have new: "\<exists>a options. r = Addr a \<and> length h \<le> a \<and> a < length h1 \<and>
                 relocate (length h) d r = Addr (a + d) \<and> length h1 \<le> a + d \<and>
                 deref h2 (Addr a) = Some (ZodUnion options) \<and>
                 deref h2 (Addr (a + d)) = Some (ZodUnion (map (relocate (length h) d) options))"
    if n: "\<not> allocated h r"
  proof -
    from sound_onD[OF flattenSchema_sound[OF assms(1)] grows_refl assms(2) run]
    have "sound h1 fl" .
    moreover from assms(4) have "(key, r) \<in> set (own fl)" by (rule map_of_SomeD)
    ultimately have "allocated h1 r" by (force simp: sound_def)
    with n obtain a where a: "r = Addr a" "length h \<le> a" "a < length h1"
      by (cases r) (auto simp: allocated_def)
    from grows_union[OF g1 a(2,3)] obtain options where
      o: "deref h1 (Addr a) = Some (ZodUnion options)" ..
    from relocatedD(3)[OF rel, of "Addr a"] o a(2)
    have "deref h2 (Addr (a + d)) = Some (ZodUnion (map (relocate (length h) d) options))"
      by simp
    moreover from deref_grows[OF g2 o] have "deref h2 (Addr a) = Some (ZodUnion options)" .
    moreover from a us d have "length h1 \<le> a + d" by simp
    ultimately show ?thesis using a by auto
  qed
  from res g2 relocatedD(2)[OF rel] orig new show ?thesis by blast
qed

theorem resolve_after_flatten_witness:
  "(\<exists>h2. resolve 4 (vehicle_heap @ [ZodUnion [Addr 0, Addr 3]]) (Addr 6) ''doors'' = Inr (h2, Addr 1)) \<and>
   (\<exists>h2. resolve 4 (vehicle_heap @ [ZodUnion [Addr 0, Addr 3]]) (Addr 6) ''type'' = Inr (h2, Addr 8) \<and>
      deref h2 (Addr 8) = Some (ZodUnion [Addr 0, Addr 3]))"
proof -
  have cl: "closed vehicle_heap"
    by (simp add: closed_def vehicle_heap_def children_def allocated_def)
  have s: "allocated vehicle_heap (Addr 6)" by (simp add: vehicle_heap_def allocated_def)
  have fl: "flatten 4 vehicle_heap (Addr 6) =
     Inr (vehicle_heap @ [ZodUnion [Addr 0, Addr 3]],
          JSRecord [(''type'', Addr 7), (''doors'', Addr 1), (''gears'', Addr 4)] None)"
    by code_simp
  have len: "length vehicle_heap = 7" by (simp add: vehicle_heap_def)
  have d: "(1::nat) = length (vehicle_heap @ [ZodUnion [Addr 0, Addr 3]]) - length vehicle_heap"
    by simp
  have old: "deref h2 (Addr 7) = Some (ZodUnion [Addr 0, Addr 3])"
    if "grows (vehicle_heap @ [ZodUnion [Addr 0, Addr 3]]) h2" for h2
    using deref_grows[OF that, of "Addr 7" "ZodUnion [Addr 0, Addr 3]"]
    by (simp add: deref_def len nth_append)
  from resolve_after_flatten[OF cl s fl _ d, of "''doors''" "Addr 1"]
  have "\<exists>h2. resolve 4 (vehicle_heap @ [ZodUnion [Addr 0, Addr 3]]) (Addr 6) ''doors'' = Inr (h2, Addr 1)"
    by (auto simp: len)
  moreover
  from resolve_after_flatten[OF cl s fl _ d, of "''type''" "Addr 7"] obtain h2 where
    r: "resolve 4 (vehicle_heap @ [ZodUnion [Addr 0, Addr 3]]) (Addr 6) ''type'' = Inr (h2, Addr 8)"
    and g: "grows (vehicle_heap @ [ZodUnion [Addr 0, Addr 3]]) h2"
    and u: "\<exists>options. deref h2 (Addr 7) = Some (ZodUnion options) \<and>
        deref h2 (Addr 8) = Some (ZodUnion (map (relocate 7 1) options))"
    by (auto simp: len allocated_def)
  from u old[OF g] have "deref h2 (Addr 8) = Some (ZodUnion [Addr 0, Addr 3])" by auto
  with r have "\<exists>h2. resolve 4 (vehicle_heap @ [ZodUnion [Addr 0, Addr 3]]) (Addr 6) ''type'' =
      Inr (h2, Addr 8) \<and> deref h2 (Addr 8) = Some (ZodUnion [Addr 0, Addr 3])" by blast
  ultimately show ?thesis by blast
qed

text \<open>
  C6 (as stated: the value at the path of a wrapped schema is always the wrapper).
  In \<open>{"": Optional({"": String})}\<close> the field of the root and the field of the
  wrapped object have the same path (the empty one); the map holds for it a new union of
  the wrapper and the string, not the wrapper (address 2). In
  \<open>{x: Array(Optional(String)), "x[]": Number}\<close> the element of the array and the
  second field have the same path \<open>x[]\<close>; the map holds for it a new union of the
  wrapper (address 1) and the number.
\<close>

theorem empty_name_collides:
  "deref empty_name_heap (Addr 3) = Some (ZodObject [('''', Addr 2)]) \<and>
   deref empty_name_heap (Addr 2) = Some (ZodOptional (Addr 1)) \<and>
   object_key [] [] = [] \<and>
   flatten 5 empty_name_heap (Addr 3) =
     Inr (empty_name_heap @ [ZodUnion [Addr 2, Addr 0]], JSRecord [('''', Addr 4)] None) \<and>
   deref sibling_heap (Addr 2) = Some (ZodArray (Addr 1)) \<and>
   deref sibling_heap (Addr 1) = Some (ZodOptional (Addr 0)) \<and>
   flatten 5 sibling_heap (Addr 4) =
     Inr (sibling_heap @ [ZodUnion [Addr 1, Addr 3]],
          JSRecord [(''x'', Addr 2), (''x[]'', Addr 5)] None)"
proof -
  have "flatten 5 empty_name_heap (Addr 3) =
     Inr (empty_name_heap @ [ZodUnion [Addr 2, Addr 0]], JSRecord [('''', Addr 4)] None)"
    by code_simp
  moreover have "flatten 5 sibling_heap (Addr 4) =
     Inr (sibling_heap @ [ZodUnion [Addr 1, Addr 3]],
          JSRecord [(''x'', Addr 2), (''x[]'', Addr 5)] None)"
    by code_simp
  ultimately show ?thesis
    by (simp add: deref_def empty_name_heap_def sibling_heap_def object_key_def)
qed

text \<open>
  C6 (amended). Let the schema \<open>w\<close> wrap the schema \<open>t\<close> in a chain of \<open>k\<close>
  optional, default and nullable wrappers. Then \<open>flattenSchema\<close> returns on \<open>w\<close>
  what it returns on \<open>t\<close>, at every prefix: every result for \<open>w\<close> is the result for
  \<open>t\<close> with the same stack, and every result for \<open>t\<close> is the result for \<open>w\<close> with
  \<open>k\<close> more frames; the same map (so the same paths, with the same values) and the
  same allocations.

  The entry of a schema is written by its parent. Take a way from the root down the
  declared structure, through elements of arrays, items of tuples, wrappers, and fields of
  objects whose names are distinct, not empty, without dot or opening bracket and, at the
  empty prefix, not names of members of \<open>Object.prototype\<close>; let it end with a step
  into a child \<open>c\<close>, at the path \<open>q\<close>. Then the map that \<open>flattenSchema\<close> returns
  for the root holds \<open>c\<close> itself under \<open>q\<close>: when \<open>c\<close> is a wrapper, the wrapper,
  although \<open>q\<close> is also the path of the schema it wraps.
\<close>

theorem wrapper_transparent:
  "((wrapper_of h ^^ k) w t \<longrightarrow>
      (flattenSchema n h w p = Inr r \<longrightarrow> flattenSchema n h t p = Inr r) \<and>
      (flattenSchema n h t p = Inr r \<longrightarrow> flattenSchema (n + k) h w p = Inr r)) \<and>
   (follow h root prefix steps = Some (q, c) \<and> steps \<noteq> [] \<and> last steps \<noteq> Unwrap \<and>
    flattenSchema j h root prefix = Inr (h', m) \<longrightarrow>
      map_of (own m) q = Some c \<and>
      (\<forall>inner. wrapper_of h c inner \<longrightarrow> follow h root prefix (steps @ [Unwrap]) = Some (q, inner)))"
proof (intro conjI impI allI)
  assume "(wrapper_of h ^^ k) w t" "flattenSchema n h w p = Inr r"
  then show "flattenSchema n h t p = Inr r" by (rule wrapper_chain(1))
next
  assume "(wrapper_of h ^^ k) w t" "flattenSchema n h t p = Inr r"
  then show "flattenSchema (n + k) h w p = Inr r" by (rule wrapper_chain(2))
next
  assume a: "follow h root prefix steps = Some (q, c) \<and> steps \<noteq> [] \<and> last steps \<noteq> Unwrap \<and>
    flattenSchema j h root prefix = Inr (h', m)"
  then show "map_of (own m) q = Some c"
    using follow_stored[of h root prefix steps q c h j h' m] grows_refl by blast
  fix inner assume "wrapper_of h c inner"
  with a show "follow h root prefix (steps @ [Unwrap]) = Some (q, inner)"
    by (auto simp: follow_append wrapper_of_def)
qed

theorem wrapper_transparent_witness:
  "flattenSchema 3 wrapped_heap (Addr 1) [] = Inr (wrapped_heap, JSRecord [(''a'', Addr 0)] None) \<and>
   flattenSchema (3 + 2) wrapped_heap (Addr 3) [] =
     Inr (wrapped_heap, JSRecord [(''a'', Addr 0)] None) \<and>
   flattenSchema 5 wrapped_heap (Addr 3) ''opt'' =
     Inr (wrapped_heap, JSRecord [(''opt.a'', Addr 0)] None) \<and>
   flattenSchema 5 wrapped_heap (Addr 1) ''opt'' =
     Inr (wrapped_heap, JSRecord [(''opt.a'', Addr 0)] None) \<and>
   flattenSchema (3 + 1) wrapped_heap (Addr 7) [] =
     Inr (wrapped_heap, JSRecord [(''a'', Addr 0)] None) \<and>
   follow wrapped_heap (Addr 5) [] [Field ''list'', Element] = Some (''list[]'', Addr 3) \<and>
   map_of [(''list'', Addr 4), (''list[]'', Addr 3), (''list[].a'', Addr 0), (''opt'', Addr 3),
           (''opt.a'', Addr 0)] ''list[]'' = Some (Addr 3) \<and>
   follow wrapped_heap (Addr 5) [] ([Field ''list'', Element] @ [Unwrap]) = Some (''list[]'', Addr 2)"
proof -
  have two: "(wrapper_of wrapped_heap ^^ 2) (Addr 3) (Addr 1)"
  proof -
    have "wrapper_of wrapped_heap (Addr 3) (Addr 2)" "wrapper_of wrapped_heap (Addr 2) (Addr 1)"
      by (simp_all add: wrapper_of_def deref_def wrapped_heap_def)
    then show ?thesis by (auto simp: numeral_2_eq_2)
  qed
  have one: "(wrapper_of wrapped_heap ^^ 1) (Addr 7) (Addr 1)"
  proof -
    have "wrapper_of wrapped_heap (Addr 7) (Addr 1)"
      by (simp add: wrapper_of_def deref_def wrapped_heap_def)
    then show ?thesis by auto
  qed
  have inner: "flattenSchema 3 wrapped_heap (Addr 1) [] =
      Inr (wrapped_heap, JSRecord [(''a'', Addr 0)] None)"
    by code_simp
  have outer: "flattenSchema 5 wrapped_heap (Addr 3) ''opt'' =
      Inr (wrapped_heap, JSRecord [(''opt.a'', Addr 0)] None)"
    by code_simp
  have way: "follow wrapped_heap (Addr 5) [] [Field ''list'', Element] = Some (''list[]'', Addr 3)"
    by code_simp
  have root: "flattenSchema 6 wrapped_heap (Addr 5) [] =
      Inr (wrapped_heap, JSRecord [(''list'', Addr 4), (''list[]'', Addr 3), (''list[].a'', Addr 0),
                                   (''opt'', Addr 3), (''opt.a'', Addr 0)] None)"
    by code_simp
  have w: "wrapper_of wrapped_heap (Addr 3) (Addr 2)"
    by (simp add: wrapper_of_def deref_def wrapped_heap_def)
  from wrapper_transparent[where h = wrapped_heap and k = 2 and w = "Addr 3" and t = "Addr 1"
      and n = 3 and p = "[]" and r = "(wrapped_heap, JSRecord [(''a'', Addr 0)] None)"
      and steps = "[]"] two inner
  have a: "flattenSchema (3 + 2) wrapped_heap (Addr 3) [] =
      Inr (wrapped_heap, JSRecord [(''a'', Addr 0)] None)" by blast
  from wrapper_transparent[where h = wrapped_heap and k = 2 and w = "Addr 3" and t = "Addr 1"
      and n = 5 and p = "''opt''" and r = "(wrapped_heap, JSRecord [(''opt.a'', Addr 0)] None)"
      and steps = "[]"] two outer
  have b: "flattenSchema 5 wrapped_heap (Addr 1) ''opt'' =
      Inr (wrapped_heap, JSRecord [(''opt.a'', Addr 0)] None)" by blast
  from wrapper_transparent[where h = wrapped_heap and k = 1 and w = "Addr 7" and t = "Addr 1"
      and n = 3 and p = "[]" and r = "(wrapped_heap, JSRecord [(''a'', Addr 0)] None)"
      and steps = "[]"] one inner
  have c: "flattenSchema (3 + 1) wrapped_heap (Addr 7) [] =
      Inr (wrapped_heap, JSRecord [(''a'', Addr 0)] None)" by blast
  from wrapper_transparent[where h = wrapped_heap and root = "Addr 5" and prefix = "[]"
      and steps = "[Field ''list'', Element]" and q = "''list[]''" and c = "Addr 3" and j = 6
      and h' = wrapped_heap
      and m = "JSRecord [(''list'', Addr 4), (''list[]'', Addr 3), (''list[].a'', Addr 0),
                         (''opt'', Addr 3), (''opt.a'', Addr 0)] None"
      and k = 0 and w = "Addr 0" and t = "Addr 1"] way root w
  have d: "map_of [(''list'', Addr 4), (''list[]'', Addr 3), (''list[].a'', Addr 0), (''opt'', Addr 3),
           (''opt.a'', Addr 0)] ''list[]'' = Some (Addr 3)"
    and e: "follow wrapped_heap (Addr 5) [] ([Field ''list'', Element] @ [Unwrap]) = Some (''list[]'', Addr 2)"
    by auto
  from inner outer way a b c d e show ?thesis by blast
qed

text \<open>
  C9 (as stated: an object with \<open>n\<close> fields yields \<open>n\<close> direct entries, each mapped to
  the declared schema of its field). Keys are not escaped: in
  \<open>{a: {b: String}, "a.b": Number}\<close> the path of the field \<open>a.b\<close> is also the path of
  the field \<open>b\<close> of \<open>a\<close>; the map has two keys, and \<open>a.b\<close> holds a new union of
  the string and the number, not the declared number (address 1). And the maps are
  plain objects: in \<open>{toString: String}\<close> the one field has the name of a member of
  \<open>Object.prototype\<close>, which every merge finds under that key, and the map holds for
  \<open>toString\<close> a union (address 4) of that member and unions nested in it, not the
  declared string (address 0); in \<open>{__proto__: {a: String}, b: String}\<close> the
  assignment to \<open>__proto__\<close> creates no property, and the first field has no entry at
  all.
\<close>

theorem dotted_field_collides:
  "deref dotted_heap (Addr 3) = Some (ZodObject [(''a'', Addr 2), (''a.b'', Addr 1)]) \<and>
   flatten 4 dotted_heap (Addr 3) =
     Inr (dotted_heap @ [ZodUnion [Addr 0, Addr 1]],
          JSRecord [(''a'', Addr 2), (''a.b'', Addr 4)] None) \<and>
   deref tostring_heap (Addr 1) = Some (ZodObject [(''toString'', Addr 0)]) \<and>
   flatten 4 tostring_heap (Addr 1) =
     Inr (tostring_heap @
            [ZodUnion [Intrinsic ''toString'', Addr 0], ZodUnion [Intrinsic ''toString'', Addr 2],
             ZodUnion [Intrinsic ''toString'', Addr 3]],
          JSRecord [(''toString'', Addr 4)] None) \<and>
   deref proto_heap (Addr 2) = Some (ZodObject [(''__proto__'', Addr 1), (''b'', Addr 0)]) \<and>
   flatten 4 proto_heap (Addr 2) =
     Inr (proto_heap @ [ZodUnion [Intrinsic ''__proto__'', Addr 1]],
          JSRecord [(''__proto__.a'', Addr 0), (''b'', Addr 0)] None)"
proof -
  have "flatten 4 dotted_heap (Addr 3) =
     Inr (dotted_heap @ [ZodUnion [Addr 0, Addr 1]],
          JSRecord [(''a'', Addr 2), (''a.b'', Addr 4)] None)"
    by code_simp
  moreover have "flatten 4 tostring_heap (Addr 1) =
     Inr (tostring_heap @
            [ZodUnion [Intrinsic ''toString'', Addr 0], ZodUnion [Intrinsic ''toString'', Addr 2],
             ZodUnion [Intrinsic ''toString'', Addr 3]],
          JSRecord [(''toString'', Addr 4)] None)"
    by code_simp
  moreover have "flatten 4 proto_heap (Addr 2) =
     Inr (proto_heap @ [ZodUnion [Intrinsic ''__proto__'', Addr 1]],
          JSRecord [(''__proto__.a'', Addr 0), (''b'', Addr 0)] None)"
    by code_simp
  ultimately show ?thesis by (simp add: deref_def dotted_heap_def tostring_heap_def proto_heap_def)
qed

text \<open>
  The order of the entries is that of \<open>Object.entries\<close>, which lists the keys that are
  array indices first: in \<open>{b: String, 1: Number, 0: {x: String}}\<close> the entry of the
  field \<open>1\<close> comes before the entry \<open>0.x\<close> of the child of the field \<open>0\<close>.
\<close>

lemma numbered_fields_first:
  "flatten 4 numbered_heap (Addr 3) =
     Inr (numbered_heap,
          JSRecord [(''0'', Addr 2), (''1'', Addr 1), (''0.x'', Addr 0), (''b'', Addr 0)] None)"
  by code_simp

text \<open>
  C9 (amended). For an object schema whose field names are distinct, not empty and
  without dot or opening bracket, and, when the prefix is empty, not the name of a member
  of \<open>Object.prototype\<close>: take, field by field in the order of the shape, the entry
  of the field (the path made of the prefix and the name, mapped to the declared schema of
  the field) followed by the entries of the map that the flattening of that schema at that
  path returned, all of whose keys are below that path. The keys of these entries are
  distinct, and the map \<open>flatten\<close> returns is what writing them in this order into an
  empty object gives: it holds exactly these entries, so exactly \<open>n\<close> direct ones, and
  every field path holds the declared schema of its field. Its order is the order in which
  they were written when the prefix is not empty or no field name is an array index.
\<close>

theorem object_entries:
  assumes "deref h schema = Some (ZodObject shape)"
    and "distinct (map fst shape)"
    and "\<forall>name \<in> fst ` set shape. simple_name name"
    and "prefix = [] \<longrightarrow> fst ` set shape \<inter> set object_prototype_keys = {}"
    and "flattenSchema (Suc n) h schema prefix = Inr (h', m)"
  shows "\<exists>subs. length subs = length shape \<and>
          m = JSRecord (assign_all (concat (map2 (\<lambda>(name, child) sub.
                (object_key prefix name, child) # own sub) shape subs)) []) None \<and>
          distinct (map fst (concat (map2 (\<lambda>(name, child) sub.
                (object_key prefix name, child) # own sub) shape subs))) \<and>
          set (own m) = set (concat (map2 (\<lambda>(name, child) sub.
                (object_key prefix name, child) # own sub) shape subs)) \<and>
          distinct (map fst (own m)) \<and>
          ((prefix = [] \<longrightarrow> (\<forall>name \<in> fst ` set shape. array_index name = None)) \<longrightarrow>
             own m = concat (map2 (\<lambda>(name, child) sub.
                (object_key prefix name, child) # own sub) shape subs)) \<and>
          list_all2 (\<lambda>(name, child) sub.
              (\<exists>h0 h1. grows h h0 \<and>
                 flattenSchema n h0 child (object_key prefix name) = Inr (h1, sub) \<and> grows h1 h') \<and>
              (\<forall>k \<in> own_keys sub. below (object_key prefix name) k)) shape subs \<and>
          (\<forall>(name, child) \<in> set shape. map_of (own m) (object_key prefix name) = Some child)"
proof -
  from object_entries_aux[OF assms] obtain subs where
    len: "length subs = length shape"
    and m: "m = JSRecord (assign_all (concat (map2 (\<lambda>(name, child) sub.
                (object_key prefix name, child) # own sub) shape subs)) []) None"
    and dist: "distinct (map fst (concat (map2 (\<lambda>(name, child) sub.
                (object_key prefix name, child) # own sub) shape subs)))"
    and all: "list_all2 (\<lambda>(name, child) sub.
              (\<exists>h0 h1. grows h h0 \<and>
                 flattenSchema n h0 child (object_key prefix name) = Inr (h1, sub) \<and> grows h1 h') \<and>
              (\<forall>k \<in> own_keys sub. below (object_key prefix name) k)) shape subs"
    by blast
  let ?segs = "concat (map2 (\<lambda>(name, child) sub. (object_key prefix name, child) # own sub) shape subs)"
  from dist have set: "set (assign_all ?segs []) = set [] \<union> set ?segs"
    by (intro set_assign_all) auto
  have dm: "distinct (map fst (assign_all ?segs []))"
    by (rule distinct_assign_all) simp
  have field: "(object_key prefix name, child) \<in> set ?segs" if "(name, child) \<in> set shape" for name child
  proof -
    from that obtain i where i: "i < length shape" "shape ! i = (name, child)"
      by (auto simp: in_set_conv_nth)
    with len have "(object_key prefix name, child) # own (subs ! i) \<in>
        set (map2 (\<lambda>(name, child) sub. (object_key prefix name, child) # own sub) shape subs)"
      by (force simp: in_set_conv_nth)
    then show ?thesis by auto
  qed
  have entry: "map_of (assign_all ?segs []) (object_key prefix name) = Some child"
    if "(name, child) \<in> set shape" for name child
    using assign_all_entry[OF dist field[OF that]] .
  have order: "assign_all ?segs [] = ?segs"
    if plain: "prefix = [] \<longrightarrow> (\<forall>name \<in> fst ` set shape. array_index name = None)"
  proof -
    have "array_index (fst e) = None" if e: "e \<in> set ?segs" for e
    proof -
      from e obtain seg where "seg \<in> set (map2 (\<lambda>(name, child) sub.
          (object_key prefix name, child) # own sub) shape subs)" "e \<in> set seg"
        by (auto simp only: set_concat)
      then obtain i where i: "i < length shape"
        "seg = (object_key prefix (fst (shape ! i)), snd (shape ! i)) # own (subs ! i)"
        using len by (auto simp: in_set_conv_nth split_def)
      from all i(1) have below: "\<forall>k \<in> own_keys (subs ! i). below (object_key prefix (fst (shape ! i))) k"
        by (auto simp: list_all2_conv_all_nth split_def)
      have "array_index (object_key prefix (fst (shape ! i))) = None"
      proof (cases "prefix = []")
        case True
        with plain i(1) show ?thesis by (auto simp: object_key_def)
      next
        case False
        from below_plain(2)[OF below_object(1)[OF False]] show ?thesis .
      qed
      with \<open>e \<in> set seg\<close> i(2) below show ?thesis
        by (auto simp: own_keys_def dest: below_plain(2))
    qed
    with dist have "assign_all ?segs [] = [] @ ?segs"
      by (intro assign_all_plain) auto
    then show ?thesis by simp
  qed
  from len m dist set dm order all entry show ?thesis
    by (intro exI[of _ subs]) auto
qed

theorem object_entries_witness:
  "\<exists>subs. length subs = length [(''name'', Addr 0), (''posts'', Addr 3)] \<and>
     [(''name'', Addr 0), (''posts'', Addr 3), (''posts[]'', Addr 2), (''posts[].title'', Addr 1)] =
       concat (map2 (\<lambda>(name, child) sub. (object_key [] name, child) # own sub)
                 [(''name'', Addr 0), (''posts'', Addr 3)] subs) \<and>
     map_of [(''name'', Addr 0), (''posts'', Addr 3), (''posts[]'', Addr 2), (''posts[].title'', Addr 1)]
       (object_key [] ''posts'') = Some (Addr 3)"
proof -
  have run: "flattenSchema (Suc 4) blog_heap (Addr 4) [] =
      Inr (blog_heap, JSRecord [(''name'', Addr 0), (''posts'', Addr 3), (''posts[]'', Addr 2),
                                (''posts[].title'', Addr 1)] None)"
    by code_simp
  have d: "deref blog_heap (Addr 4) = Some (ZodObject [(''name'', Addr 0), (''posts'', Addr 3)])"
    by (simp add: deref_def blog_heap_def)
  have names: "distinct (map fst [(''name'', Addr 0), (''posts'', Addr 3)])"
    "\<forall>name \<in> fst ` set [(''name'', Addr 0), (''posts'', Addr 3)]. simple_name name"
    "([]::string) = [] \<longrightarrow>
       fst ` set [(''name'', Addr 0), (''posts'', Addr 3)] \<inter> set object_prototype_keys = {}"
    by (simp_all add: simple_name_def object_prototype_keys_def)
  have plain: "\<forall>name \<in> fst ` set [(''name'', Addr 0), (''posts'', Addr 3)]. array_index name = None"
    by (simp add: array_index_def digit_def)
  from object_entries[OF d names run] plain show ?thesis
    by (auto simp: object_key_def)
qed

end
